theory Spec2Isabelle
  imports Main "HOL-Library.Multiset"
begin

section \<open>Values: Python strings and parsed JSON\<close>

text \<open>
  A Python \<open>str\<close> is a sequence of Unicode code points, so it is modelled as a list of
  natural numbers; \<open>lit\<close> turns an ASCII literal into such a list. The emoji of the
  message templates are written by code point.

  The feed's response is whatever \<open>r.json()\<close> returns: \<open>None\<close>, a bool, an int, a
  float, a str, a list or a dict with string keys. A dict is an association list in
  insertion order.

  A float is identified by its \<open>repr\<close>, the text Python prints for it (\<open>0.53\<close>,
  \<open>1e-07\<close>, \<open>-0.0\<close>, \<open>inf\<close>, \<open>nan\<close>): Python prints the shortest decimal that reads
  back as the same float, so two floats have the same text exactly when they are the
  same float (every NaN prints as \<open>nan\<close>). \<open>JFloat t\<close> is the float whose \<open>repr\<close> is
  \<open>t\<close>.
\<close>

type_synonym pystr = "nat list"

definition lit :: "string \<Rightarrow> pystr" where
  "lit s = map of_char s"

datatype json =
    JNull
  | JBool bool
  | JInt int
  | JFloat pystr
  | JStr pystr
  | JArr "json list"
  | JObj "(pystr \<times> json) list"

text \<open>Truthiness, as \<open>not tx\<close> and \<open>x or y\<close> test it.\<close>

fun truthy :: "json \<Rightarrow> bool" where
  "truthy JNull = False"
| "truthy (JBool b) = b"
| "truthy (JInt n) = (n \<noteq> 0)"
| "truthy (JFloat t) = (t \<noteq> lit ''0.0'' \<and> t \<noteq> lit ''-0.0'')"
| "truthy (JStr s) = (s \<noteq> [])"
| "truthy (JArr xs) = (xs \<noteq> [])"
| "truthy (JObj kvs) = (kvs \<noteq> [])"

text \<open>\<open>x or d\<close>.\<close>

definition py_or :: "json \<Rightarrow> json \<Rightarrow> json" where
  "py_or x d = (if truthy x then x else d)"

text \<open>\<open>d.get(k)\<close> on a dict: the value, or \<open>None\<close> when the key is absent.\<close>

definition dget :: "(pystr \<times> json) list \<Rightarrow> pystr \<Rightarrow> json" where
  "dget kvs k = (case map_of kvs k of None \<Rightarrow> JNull | Some v \<Rightarrow> v)"

text \<open>\<open>type(x).__name__\<close>.\<close>

fun type_name :: "json \<Rightarrow> pystr" where
  "type_name JNull = lit ''NoneType''"
| "type_name (JBool b) = lit ''bool''"
| "type_name (JInt n) = lit ''int''"
| "type_name (JFloat t) = lit ''float''"
| "type_name (JStr s) = lit ''str''"
| "type_name (JArr xs) = lit ''list''"
| "type_name (JObj kvs) = lit ''dict''"

subsection \<open>Decimal text of an int\<close>

fun str_nat :: "nat \<Rightarrow> pystr" where
  "str_nat n = (if n < 10 then [48 + n] else str_nat (n div 10) @ [48 + n mod 10])"

declare str_nat.simps [simp del]

definition str_int :: "int \<Rightarrow> pystr" where
  "str_int i = (if i < 0 then 45 # str_nat (nat (- i)) else str_nat (nat i))"

subsection \<open>The text of a number\<close>

text \<open>
  A JSON number, as the decoder's pattern reads it from the head of a text: an optional
  minus, the integer digits (\<open>0\<close>, or a digit other than 0 and the digits after it), an
  optional fraction (a point and at least one digit) and an optional exponent (\<open>e\<close> or
  \<open>E\<close>, an optional sign, at least one digit). The \<open>repr\<close> of a finite float has this
  form too.
\<close>

definition is_digit :: "nat \<Rightarrow> bool" where
  "is_digit c = (48 \<le> c \<and> c \<le> 57)"

definition digits_value :: "pystr \<Rightarrow> nat" where
  "digits_value ds = foldl (\<lambda>a c. 10 * a + (c - 48)) 0 ds"

definition int_digits :: "pystr \<Rightarrow> pystr" where
  "int_digits s =
     (case s of [] \<Rightarrow> [] | c # s1 \<Rightarrow> if c = 48 then [c] else takeWhile is_digit s)"

definition frac_part :: "pystr \<Rightarrow> pystr" where
  "frac_part s =
     (case s of
        [] \<Rightarrow> []
      | c # s1 \<Rightarrow>
          if c = 46 \<and> takeWhile is_digit s1 \<noteq> [] then c # takeWhile is_digit s1 else [])"

definition exp_sign :: "pystr \<Rightarrow> pystr" where
  "exp_sign s = (case s of [] \<Rightarrow> [] | c # s1 \<Rightarrow> if c = 43 \<or> c = 45 then [c] else [])"

definition exp_part :: "pystr \<Rightarrow> pystr" where
  "exp_part s =
     (case s of
        [] \<Rightarrow> []
      | c # s1 \<Rightarrow>
          if (c = 101 \<or> c = 69) \<and> takeWhile is_digit (drop (length (exp_sign s1)) s1) \<noteq> []
          then c # exp_sign s1 @ takeWhile is_digit (drop (length (exp_sign s1)) s1)
          else [])"

record number_text =
  negative :: bool
  int_text :: pystr
  frac_text :: pystr
  exp_text :: pystr
  remainder :: pystr

definition scan_number :: "pystr \<Rightarrow> number_text" where
  "scan_number s =
     (let neg = (case s of [] \<Rightarrow> False | c # s1 \<Rightarrow> c = 45);
          body = (if neg then tl s else s);
          ds = int_digits body;
          s1 = drop (length ds) body;
          fr = frac_part s1;
          s2 = drop (length fr) s1;
          ex = exp_part s2
      in \<lparr> negative = neg, int_text = ds, frac_text = fr, exp_text = ex,
           remainder = drop (length ex) s2 \<rparr>)"

subsection \<open>\<open>json.dumps(item, ensure_ascii=False)\<close>\<close>

text \<open>
  The standard encoder with its default separators \<open>", "\<close> and \<open>": "\<close>. In a string it
  escapes the quote, the backslash and the control characters below U+0020 (the short
  forms for backspace, form feed, newline, carriage return and tab, \<open>\u00XX\<close> for the
  rest); with \<open>ensure_ascii=False\<close> every other code point is written as it is. A
  float is written with \<open>float.__repr__\<close>, except that the encoder has its own words for
  the three that are not finite.
\<close>

definition hex_digit :: "nat \<Rightarrow> nat" where
  "hex_digit d = (if d < 10 then 48 + d else 87 + d)"

definition escape_char :: "nat \<Rightarrow> pystr" where
  "escape_char c =
     (if c = 34 then [92, 34]
      else if c = 92 then [92, 92]
      else if c = 8 then [92, 98]
      else if c = 12 then [92, 102]
      else if c = 10 then [92, 110]
      else if c = 13 then [92, 114]
      else if c = 9 then [92, 116]
      else if c < 32 then [92, 117, 48, 48, hex_digit (c div 16), hex_digit (c mod 16)]
      else [c])"

definition encode_str :: "pystr \<Rightarrow> pystr" where
  "encode_str s = 34 # concat (map escape_char s) @ [34]"

fun dumps :: "json \<Rightarrow> pystr"
  and dumps_items :: "json list \<Rightarrow> pystr"
  and dumps_members :: "(pystr \<times> json) list \<Rightarrow> pystr" where
  "dumps JNull = lit ''null''"
| "dumps (JBool b) = (if b then lit ''true'' else lit ''false'')"
| "dumps (JInt n) = str_int n"
| "dumps (JFloat t) =
     (if t = lit ''nan'' then lit ''NaN''
      else if t = lit ''inf'' then lit ''Infinity''
      else if t = lit ''-inf'' then lit ''-Infinity''
      else t)"
| "dumps (JStr s) = encode_str s"
| "dumps (JArr xs) = 91 # dumps_items xs @ [93]"
| "dumps (JObj kvs) = 123 # dumps_members kvs @ [125]"
| "dumps_items [] = []"
| "dumps_items [x] = dumps x"
| "dumps_items (x # y # ys) = dumps x @ [44, 32] @ dumps_items (y # ys)"
| "dumps_members [] = []"
| "dumps_members [(k, v)] = encode_str k @ [58, 32] @ dumps v"
| "dumps_members ((k, v) # kv # kvs) =
     encode_str k @ [58, 32] @ dumps v @ [44, 32] @ dumps_members (kv # kvs)"

section \<open>The canonical row\<close>

text \<open>
  \<open>normalize_item\<close> builds a dict with seventeen fixed keys: sixteen copied with
  \<open>item.get\<close>, and \<open>raw_json\<close>, the serialised item. The fields \<open>type\<close> and \<open>size\<close>
  are named \<open>type_field\<close> and \<open>size_field\<close> here.
\<close>

record row =
  transactionHash :: json
  timestamp :: json
  proxyWallet :: json
  conditionId :: json
  type_field :: json
  side :: json
  asset :: json
  outcome :: json
  outcomeIndex :: json
  price :: json
  size_field :: json
  usdcSize :: json
  title :: json
  slug :: json
  eventSlug :: json
  icon :: json
  raw_json :: pystr

datatype exn =
    LibraryError pystr pystr
  | ValueError pystr
  | AttributeError pystr pystr
  | TypeError

text \<open>
  \<open>LibraryError name text\<close> is an exception raised by one of the collaborators (httpx,
  the database driver): the environment supplies it. \<open>ValueError\<close> is the one
  \<open>fetch_activity\<close> raises itself; \<open>AttributeError t a\<close> is the interpreter's
  \<open>'t' object has no attribute 'a'\<close>; \<open>TypeError\<close> is the failed comparison inside
  \<open>list.sort\<close>.

  \<open>normalize_item(item)\<close> calls \<open>item.get\<close>, which only a dict has: any other element of
  the fetched list raises \<open>AttributeError\<close>.
\<close>

fun normalize_item :: "json \<Rightarrow> exn + row" where
  "normalize_item (JObj item) = Inr
     \<lparr> transactionHash = dget item (lit ''transactionHash''),
       timestamp = dget item (lit ''timestamp''),
       proxyWallet = dget item (lit ''proxyWallet''),
       conditionId = dget item (lit ''conditionId''),
       type_field = dget item (lit ''type''),
       side = dget item (lit ''side''),
       asset = dget item (lit ''asset''),
       outcome = dget item (lit ''outcome''),
       outcomeIndex = dget item (lit ''outcomeIndex''),
       price = dget item (lit ''price''),
       size_field = dget item (lit ''size''),
       usdcSize = dget item (lit ''usdcSize''),
       title = dget item (lit ''title''),
       slug = dget item (lit ''slug''),
       eventSlug = dget item (lit ''eventSlug''),
       icon = dget item (lit ''icon''),
       raw_json = dumps (JObj item) \<rparr>"
| "normalize_item j = Inl (AttributeError (type_name j) (lit ''get''))"

section \<open>The event store\<close>

text \<open>
  The table \<open>polymarket_activity\<close> is a list of rows whose primary key is
  \<open>transactionHash\<close>. The statement executed for every record is
  \<open>INSERT ... ON CONFLICT (transactionHash) DO NOTHING\<close>: it appends the row unless a
  row with the same key is there, and reports the number of rows written.
\<close>

type_synonym table = "row list"

definition has_key :: "table \<Rightarrow> json \<Rightarrow> bool" where
  "has_key tbl tx = (\<exists>r \<in> set tbl. transactionHash r = tx)"

definition insert_do_nothing :: "table \<Rightarrow> row \<Rightarrow> table \<times> nat" where
  "insert_do_nothing tbl r =
     (if has_key tbl (transactionHash r) then (tbl, 0) else (tbl @ [r], 1))"

definition records_of :: "table \<Rightarrow> json \<Rightarrow> row list" where
  "records_of tbl tx = filter (\<lambda>r. transactionHash r = tx) tbl"

section \<open>Ordering the new rows\<close>

text \<open>
  \<open>new_rows.sort(key=lambda x: x.get("timestamp") or 0)\<close>. The key of a row is its
  timestamp, or the int 0 when the timestamp is falsy (\<open>None\<close>, 0, \<open>False\<close>, an empty
  string or container). \<open>list.sort\<close> is stable and compares keys with \<open><\<close> only.
  Python compares bools, ints and floats as numbers, by their exact values; strings by
  code point; lists lexicographically (finding the first position where the elements are
  not \<open>==\<close>); any other pair of operands raises \<open>TypeError\<close>. A NaN is neither
  smaller nor greater than anything nor equal to anything.

  The exact value of a float is found from its \<open>repr\<close>: it is the double nearest to that
  decimal (ties to the even mantissa), a mantissa of at most 53 bits times a power of
  two not below \<open>2^-1074\<close>.
\<close>

fun bit_length :: "nat \<Rightarrow> nat" where
  "bit_length n = (if n = 0 then 0 else Suc (bit_length (n div 2)))"

declare bit_length.simps [simp del]

definition round_half_even :: "nat \<Rightarrow> nat \<Rightarrow> nat" where
  "round_half_even n d =
     (let q = n div d; r = n mod d
      in if 2 * r < d then q else if d < 2 * r then q + 1 else if even q then q else q + 1)"

text \<open>\<open>nearest_double m e\<close>: the double nearest to \<open>m * 10^e\<close>, as mantissa and binary exponent.\<close>

definition nearest_double :: "nat \<Rightarrow> int \<Rightarrow> nat \<times> int" where
  "nearest_double mant e10 =
     (if mant = 0 then (0, 0)
      else
        let num = (if 0 \<le> e10 then mant * 10 ^ nat e10 else mant);
            den = (if 0 \<le> e10 then 1 else 10 ^ nat (- e10));
            k0 = int (bit_length num) - int (bit_length den);
            k = (if den * 2 ^ nat k0 \<le> num * 2 ^ nat (- k0) then k0 else k0 - 1);
            e2 = max (k - 52) (- 1074)
        in (round_half_even (num * 2 ^ nat (- e2)) (den * 2 ^ nat e2), e2))"

text \<open>\<open>Finite m e\<close> is the number \<open>m * 2^e\<close>.\<close>

datatype fval = Finite int int | PosInf | NegInf | NotANumber

definition float_value :: "pystr \<Rightarrow> fval" where
  "float_value t =
     (if t = lit ''nan'' then NotANumber
      else if t = lit ''inf'' then PosInf
      else if t = lit ''-inf'' then NegInf
      else
        let n = scan_number t;
            fd = tl (frac_text n);
            ex = tl (exp_text n);
            e10 = (case ex of
                     [] \<Rightarrow> 0
                   | c # ds \<Rightarrow> if c = 45 then - int (digits_value ds)
                              else if c = 43 then int (digits_value ds)
                              else int (digits_value ex));
            d = nearest_double (digits_value (int_text n @ fd)) (e10 - int (length fd))
        in Finite (if negative n then - int (fst d) else int (fst d)) (snd d))"

fun fval_less :: "fval \<Rightarrow> fval \<Rightarrow> bool" where
  "fval_less NotANumber y = False"
| "fval_less x NotANumber = False"
| "fval_less x NegInf = False"
| "fval_less NegInf y = True"
| "fval_less PosInf y = False"
| "fval_less x PosInf = True"
| "fval_less (Finite m e) (Finite n f) =
     (m * 2 ^ nat (e - min e f) < n * 2 ^ nat (f - min e f))"

fun fval_eq :: "fval \<Rightarrow> fval \<Rightarrow> bool" where
  "fval_eq (Finite m e) (Finite n f) =
     (m * 2 ^ nat (e - min e f) = n * 2 ^ nat (f - min e f))"
| "fval_eq PosInf PosInf = True"
| "fval_eq NegInf NegInf = True"
| "fval_eq x y = False"

text \<open>The number a bool or an int is, and the number any numeric value is.\<close>

fun py_real :: "json \<Rightarrow> fval option" where
  "py_real (JBool b) = Some (Finite (if b then 1 else 0) 0)"
| "py_real (JInt n) = Some (Finite n 0)"
| "py_real (JFloat t) = Some (float_value t)"
| "py_real j = None"

fun py_num :: "json \<Rightarrow> int option" where
  "py_num (JBool b) = Some (if b then 1 else 0)"
| "py_num (JInt n) = Some n"
| "py_num j = None"

lemma size_arr_member: "x \<in> set xs \<Longrightarrow> size x < Suc (size_list size xs)"
  by (induction xs) auto

lemma size_obj_member:
  "(k, v) \<in> set kvs \<Longrightarrow> size v < Suc (size_list (size_prod (\<lambda>x. 0) size) kvs)"
  by (induction kvs) auto

function py_eq :: "json \<Rightarrow> json \<Rightarrow> bool" where
  "py_eq a b =
     (case (a, b) of
        (JNull, JNull) \<Rightarrow> True
      | (JStr s, JStr t) \<Rightarrow> s = t
      | (JArr xs, JArr ys) \<Rightarrow>
          length xs = length ys \<and> (\<forall>(x, y) \<in> set (zip xs ys). py_eq x y)
      | (JObj kvs, JObj kws) \<Rightarrow>
          length kvs = length kws \<and>
          (\<forall>(k, v) \<in> set kvs. case map_of kws k of None \<Rightarrow> False | Some w \<Rightarrow> py_eq v w)
      | _ \<Rightarrow> (case (py_num a, py_num b) of
                (Some m, Some n) \<Rightarrow> m = n
              | _ \<Rightarrow> (case (py_real a, py_real b) of
                        (Some x, Some y) \<Rightarrow> fval_eq x y
                      | _ \<Rightarrow> False)))"
  by pat_completeness auto
termination
proof (relation "measure (\<lambda>(a, b). size a)", goal_cases)
  case 1
  show ?case by simp
next
  case (2 a b x y xs ys p xa ya)
  then have "xa \<in> set xs"
    by (auto dest: set_zip_leftD)
  then show ?case
    using 2 size_arr_member [of xa xs] by auto
next
  case (3 a b x y kvs kws p k v w)
  then have "(k, v) \<in> set kvs"
    by auto
  then show ?case
    using 3 size_obj_member [of k v kvs] by auto
qed

declare py_eq.simps [simp del]

function py_lt :: "json \<Rightarrow> json \<Rightarrow> exn + bool" where
  "py_lt a b =
     (case (a, b) of
        (JStr s, JStr t) \<Rightarrow> Inr (lexordp (<) s t)
      | (JArr xs, JArr ys) \<Rightarrow>
          (case dropWhile (\<lambda>(x, y). py_eq x y) (zip xs ys) of
             [] \<Rightarrow> Inr (length xs < length ys)
           | (x, y) # rest \<Rightarrow> py_lt x y)
      | _ \<Rightarrow> (case (py_num a, py_num b) of
                (Some m, Some n) \<Rightarrow> Inr (m < n)
              | _ \<Rightarrow> (case (py_real a, py_real b) of
                        (Some x, Some y) \<Rightarrow> Inr (fval_less x y)
                      | _ \<Rightarrow> Inl TypeError)))"
  by pat_completeness auto
termination
proof (relation "measure (\<lambda>(a, b). size a)", goal_cases)
  case 1
  show ?case by simp
next
  case (2 a b x y xs ys p ps xa ya)
  then have "(xa, ya) \<in> set (dropWhile (\<lambda>(x, y). py_eq x y) (zip xs ys))"
    by simp
  then have "xa \<in> set xs"
    by (auto dest: set_dropWhileD set_zip_leftD)
  then show ?case
    using 2 size_arr_member [of xa xs] by auto
qed

declare py_lt.simps [simp del]

definition timestamp_key :: "row \<Rightarrow> json" where
  "timestamp_key x = py_or (timestamp x) (JInt 0)"

definition comparable :: "json \<Rightarrow> json \<Rightarrow> bool" where
  "comparable a b = (case py_lt a b of Inl e \<Rightarrow> False | Inr v \<Rightarrow> True)"

fun sortable :: "json list \<Rightarrow> bool" where
  "sortable [] = True"
| "sortable (k # ks) = ((\<forall>k' \<in> set ks. comparable k k' \<and> comparable k' k) \<and> sortable ks)"

definition key_less :: "row \<Rightarrow> row \<Rightarrow> bool" where
  "key_less x y = (py_lt (timestamp_key x) (timestamp_key y) = Inr True)"

fun insert_row :: "row \<Rightarrow> row list \<Rightarrow> row list" where
  "insert_row x [] = [x]"
| "insert_row x (y # ys) = (if key_less y x then y # insert_row x ys else x # y # ys)"

text \<open>
  The sorted list is the stable one (a row goes before the first row whose key is not
  smaller than its own, and rows are inserted from the last to the first). When two
  keys of the batch cannot be compared the sort raises \<open>TypeError\<close>; a batch of at most
  one row is never compared. With a NaN among the keys \<open><\<close> is not an order and the
  list that \<open>list.sort\<close> leaves depends on the steps of its algorithm; the model then
  gives the list of the insertion just described.
\<close>

definition sort_new_rows :: "row list \<Rightarrow> exn + row list" where
  "sort_new_rows new_rows =
     (if sortable (map timestamp_key new_rows) then Inr (foldr insert_row new_rows [])
      else Inl TypeError)"

section \<open>The message\<close>

text \<open>
  \<open>str.strip()\<close> removes the leading and trailing code points for which
  \<open>str.isspace\<close> holds.
\<close>

definition is_space :: "nat \<Rightarrow> bool" where
  "is_space c =
     ((9 \<le> c \<and> c \<le> 13) \<or> (28 \<le> c \<and> c \<le> 32) \<or> c = 133 \<or> c = 160 \<or> c = 5760
      \<or> (8192 \<le> c \<and> c \<le> 8202) \<or> c = 8232 \<or> c = 8233 \<or> c = 8239 \<or> c = 8287
      \<or> c = 12288)"

definition strip :: "pystr \<Rightarrow> pystr" where
  "strip s = rev (dropWhile is_space (rev (dropWhile is_space s)))"

text \<open>
  \<open>f"{x}"\<close> is \<open>str(x)\<close>; for a float that is its \<open>repr\<close>. For a list or a dict it is
  Python's \<open>repr\<close> of the container, which depends on the interpreter's tables of
  printable characters: it is the parameter \<open>rp\<close>.
\<close>

fun py_str :: "(json \<Rightarrow> pystr) \<Rightarrow> json \<Rightarrow> pystr" where
  "py_str rp JNull = lit ''None''"
| "py_str rp (JBool b) = (if b then lit ''True'' else lit ''False'')"
| "py_str rp (JInt n) = str_int n"
| "py_str rp (JFloat t) = t"
| "py_str rp (JStr s) = s"
| "py_str rp j = rp j"

text \<open>\<open>(r.get("title") or "").strip()\<close>: only a str has \<open>strip\<close>.\<close>

definition title_text :: "row \<Rightarrow> exn + pystr" where
  "title_text r =
     (case py_or (title r) (JStr []) of
        JStr s \<Rightarrow> Inr (strip s)
      | j \<Rightarrow> Inl (AttributeError (type_name j) (lit ''strip'')))"

definition message_lines :: "(json \<Rightarrow> pystr) \<Rightarrow> row \<Rightarrow> exn + pystr list" where
  "message_lines rp r =
     (case title_text r of
        Inl e \<Rightarrow> Inl e
      | Inr t \<Rightarrow> Inr
          ([127381 # lit '' Polymarket activity'']
           @ (if t \<noteq> [] then [128221 # 32 # t] else [])
           @ [128257 # 32 # py_str rp (type_field r) @ lit '' / '' @ py_str rp (side r)]
           @ (if size_field r \<noteq> JNull \<or> usdcSize r \<noteq> JNull
              then [128230 # lit '' size='' @ py_str rp (size_field r)
                      @ lit '' | usdc='' @ py_str rp (usdcSize r)]
              else [])
           @ (if price r \<noteq> JNull then [128178 # lit '' price='' @ py_str rp (price r)] else [])
           @ [129534 # lit '' tx='' @ py_str rp (transactionHash r)]))"

fun join :: "pystr \<Rightarrow> pystr list \<Rightarrow> pystr" where
  "join sep [] = []"
| "join sep [l] = l"
| "join sep (l # m # ls) = l @ sep @ join sep (m # ls)"

definition format_message :: "(json \<Rightarrow> pystr) \<Rightarrow> row \<Rightarrow> exn + pystr" where
  "format_message rp r =
     (case message_lines rp r of Inl e \<Rightarrow> Inl e | Inr lines \<Rightarrow> Inr (join [10] lines))"

section \<open>One cycle of the loop\<close>

text \<open>
  What the program does to the outside is a log: every call of \<open>telegram_send\<close> with
  whether it was delivered, and the number of sleeps. A call carries either the message
  of a row or the error report of an exception
  (\<open>f"... Error: {type(e).__name__}: {e}"\<close>).

  What the outside does to the program is the environment of a cycle: the outcome of the
  HTTP request and of \<open>r.json()\<close>, whether the database driver fails on a statement, and
  whether a send fails (a function of the number of sends made so far and of the call).
\<close>

datatype notification = Activity row pystr | Failure exn

record world =
  store :: table
  outbox :: "(notification \<times> bool) list"
  sleeps :: nat

record env =
  py_repr :: "json \<Rightarrow> pystr"
  feed :: "exn + json"
  db_fault :: "table \<Rightarrow> row \<Rightarrow> exn option"
  tg_fault :: "nat \<Rightarrow> notification \<Rightarrow> exn option"

definition fetch_activity :: "env \<Rightarrow> exn + json list" where
  "fetch_activity ev =
     (case feed ev of
        Inl e \<Rightarrow> Inl e
      | Inr (JArr items) \<Rightarrow> Inr items
      | Inr data \<Rightarrow> Inl (ValueError
          (lit ''Unexpected response shape: <class '' @ [39] @ type_name data @ [39] @ lit ''>'')))"

definition telegram_send ::
  "env \<Rightarrow> notification \<Rightarrow> (notification \<times> bool) list \<Rightarrow> (notification \<times> bool) list \<times> exn option" where
  "telegram_send ev n ob =
     (case tg_fault ev (length ob) n of
        Some e \<Rightarrow> (ob @ [(n, False)], Some e)
      | None \<Rightarrow> (ob @ [(n, True)], None))"

text \<open>
  The body of \<open>for item in items\<close>, inside the transaction: the table so far and the
  list \<open>new_rows\<close> are threaded through; an exception ends the loop.
\<close>

fun record_items ::
  "env \<Rightarrow> json list \<Rightarrow> table \<Rightarrow> row list \<Rightarrow> exn + table \<times> row list" where
  "record_items ev [] tbl new_rows = Inr (tbl, new_rows)"
| "record_items ev (item # items) tbl new_rows =
     (case normalize_item item of
        Inl e \<Rightarrow> Inl e
      | Inr r \<Rightarrow>
          if \<not> truthy (transactionHash r) then record_items ev items tbl new_rows
          else (case db_fault ev tbl r of
                  Some e \<Rightarrow> Inl e
                | None \<Rightarrow>
                    (case insert_do_nothing tbl r of
                       (tbl', rowcount) \<Rightarrow>
                         record_items ev items tbl'
                           (if rowcount = 1 then new_rows @ [r] else new_rows))))"

text \<open>\<open>for r in new_rows: await telegram_send(..., format_message(r))\<close>.\<close>

fun deliver ::
  "env \<Rightarrow> row list \<Rightarrow> (notification \<times> bool) list \<Rightarrow> (notification \<times> bool) list \<times> exn option" where
  "deliver ev [] ob = (ob, None)"
| "deliver ev (r # rs) ob =
     (case format_message (py_repr ev) r of
        Inl e \<Rightarrow> (ob, Some e)
      | Inr msg \<Rightarrow>
          (case telegram_send ev (Activity r msg) ob of
             (ob', Some e) \<Rightarrow> (ob', Some e)
           | (ob', None) \<Rightarrow> deliver ev rs ob'))"

text \<open>
  The \<open>try\<close> block. It returns the world it has reached and the exception that ended
  it, if any. An exception inside \<open>with engine.begin()\<close> rolls the transaction back, so
  the store is the one the cycle started with; after the block the transaction is
  committed, whatever happens next.
\<close>

definition try_block :: "env \<Rightarrow> world \<Rightarrow> world \<times> exn option" where
  "try_block ev w =
     (case fetch_activity ev of
        Inl e \<Rightarrow> (w, Some e)
      | Inr items \<Rightarrow>
          (case record_items ev items (store w) [] of
             Inl e \<Rightarrow> (w, Some e)
           | Inr (tbl, new_rows) \<Rightarrow>
               (case sort_new_rows new_rows of
                  Inl e \<Rightarrow> (w\<lparr>store := tbl\<rparr>, Some e)
                | Inr sorted_rows \<Rightarrow>
                    (case deliver ev sorted_rows (outbox w) of
                       (ob, failure) \<Rightarrow> (w\<lparr>store := tbl, outbox := ob\<rparr>, failure)))))"

text \<open>
  \<open>except Exception as e\<close>: one send of the error report, whose own exception is
  passed over. The result is a sum so that an exception leaving the loop body would be
  visible as \<open>Inl\<close>.
\<close>

definition except_block :: "env \<Rightarrow> world \<Rightarrow> exn \<Rightarrow> exn + world" where
  "except_block ev w e =
     (case telegram_send ev (Failure e) (outbox w) of
        (ob, Some e') \<Rightarrow> Inr (w\<lparr>outbox := ob\<rparr>)
      | (ob, None) \<Rightarrow> Inr (w\<lparr>outbox := ob\<rparr>))"

definition sleep :: "world \<Rightarrow> world" where
  "sleep w = w\<lparr>sleeps := Suc (sleeps w)\<rparr>"

definition cycle :: "env \<Rightarrow> world \<Rightarrow> exn + world" where
  "cycle ev w =
     (case try_block ev w of
        (w', None) \<Rightarrow> Inr (sleep w')
      | (w', Some e) \<Rightarrow>
          (case except_block ev w' e of Inl e' \<Rightarrow> Inl e' | Inr w'' \<Rightarrow> Inr (sleep w'')))"

text \<open>
  \<open>while True\<close>: the loop has no exit of its own, so \<open>run evs n\<close> is the world after
  \<open>n\<close> iterations, the \<open>i\<close>-th in the environment \<open>evs i\<close>; \<open>Inl\<close> is an exception that
  left the loop.
\<close>

fun run :: "(nat \<Rightarrow> env) \<Rightarrow> nat \<Rightarrow> world \<Rightarrow> exn + world" where
  "run evs 0 w = Inr w"
| "run evs (Suc n) w =
     (case run evs n w of Inl e \<Rightarrow> Inl e | Inr w' \<Rightarrow> cycle (evs n) w')"

section \<open>What is observed of a run\<close>

text \<open>The number of error reports among the calls of \<open>telegram_send\<close>.\<close>

definition failure_count :: "(notification \<times> bool) list \<Rightarrow> nat" where
  "failure_count ob =
     length (filter (\<lambda>(n, delivered). case n of Failure e \<Rightarrow> True | Activity r m \<Rightarrow> False) ob)"

text \<open>
  The numeric value of a row's sort key, when it has one: the timestamp is an int or a
  bool, or it is falsy and the key is 0.
\<close>

definition int_key :: "row \<Rightarrow> int option" where
  "int_key r = py_num (timestamp_key r)"

definition key_value :: "row \<Rightarrow> int" where
  "key_value r = (case int_key r of None \<Rightarrow> 0 | Some n \<Rightarrow> n)"

text \<open>The rows whose message was handed to \<open>telegram_send\<close>, in the order of the calls.\<close>

definition sent_rows :: "(notification \<times> bool) list \<Rightarrow> row list" where
  "sent_rows ob = concat (map (\<lambda>(n, delivered). case n of Activity r m \<Rightarrow> [r] | Failure e \<Rightarrow> []) ob)"

text \<open>
  The state of store and sends that the loop keeps: no two stored rows share a
  transactionHash, no two rows sent share one, and every row sent is a stored row.
\<close>

definition ledger_ok :: "world \<Rightarrow> bool" where
  "ledger_ok w =
     (distinct (map transactionHash (store w))
      \<and> distinct (map transactionHash (sent_rows (outbox w)))
      \<and> set (sent_rows (outbox w)) \<subseteq> set (store w))"

section \<open>Reading the payload back: \<open>json.loads\<close>\<close>

text \<open>
  The decoder of the standard library: whitespace between tokens, the literals, numbers,
  strings with their escapes (\<open>\\uXXXX\<close> with surrogate pairs joined; a raw control
  character is refused, as in strict mode), arrays, and objects built by dict
  assignment, so that a repeated key keeps its first position and its last value. Nested
  values are parsed with fuel, and \<open>loads\<close> gives more fuel than the text has characters.

  A number without fraction and exponent is an int. Any other is the float
  \<open>float(text)\<close>; which float a decimal text denotes is the interpreter's conversion,
  the parameter \<open>canon\<close>: \<open>canon text\<close> is the \<open>repr\<close> of \<open>float(text)\<close>. The decoder also
  reads the encoder's words \<open>NaN\<close>, \<open>Infinity\<close> and \<open>-Infinity\<close>.
\<close>

definition is_ws :: "nat \<Rightarrow> bool" where
  "is_ws c = (c = 32 \<or> c = 9 \<or> c = 10 \<or> c = 13)"

definition skip_ws :: "pystr \<Rightarrow> pystr" where
  "skip_ws s = dropWhile is_ws s"

definition parse_number :: "(pystr \<Rightarrow> pystr) \<Rightarrow> pystr \<Rightarrow> (json \<times> pystr) option" where
  "parse_number canon s =
     (let n = scan_number s
      in if int_text n = [] then None
         else if frac_text n = [] \<and> exp_text n = [] then
           Some (JInt (if negative n then - int (digits_value (int_text n))
                       else int (digits_value (int_text n))), remainder n)
         else
           Some (JFloat (canon ((if negative n then [45] else [])
                                  @ int_text n @ frac_text n @ exp_text n)), remainder n))"

definition hex_value :: "nat \<Rightarrow> nat option" where
  "hex_value c =
     (if 48 \<le> c \<and> c \<le> 57 then Some (c - 48)
      else if 97 \<le> c \<and> c \<le> 102 then Some (c - 87)
      else if 65 \<le> c \<and> c \<le> 70 then Some (c - 55)
      else None)"

definition hex4 :: "pystr \<Rightarrow> (nat \<times> pystr) option" where
  "hex4 s =
     (case s of
        a # b # c # d # rest \<Rightarrow>
          (case (hex_value a, hex_value b, hex_value c, hex_value d) of
             (Some x, Some y, Some z, Some w) \<Rightarrow> Some (((x * 16 + y) * 16 + z) * 16 + w, rest)
           | _ \<Rightarrow> None)
      | _ \<Rightarrow> None)"

definition unescape :: "nat \<Rightarrow> nat option" where
  "unescape e =
     (if e = 34 then Some 34
      else if e = 92 then Some 92
      else if e = 47 then Some 47
      else if e = 98 then Some 8
      else if e = 102 then Some 12
      else if e = 110 then Some 10
      else if e = 114 then Some 13
      else if e = 116 then Some 9
      else None)"

text \<open>The second half of a surrogate pair: \<open>\\uXXXX\<close> in the range DC00 to DFFF.\<close>

definition low_surrogate :: "pystr \<Rightarrow> (nat \<times> pystr) option" where
  "low_surrogate s =
     (case s of
        b # u # s1 \<Rightarrow>
          if b = 92 \<and> u = 117 then
            (case hex4 s1 of
               Some (lo, rest) \<Rightarrow> if 56320 \<le> lo \<and> lo \<le> 57343 then Some (lo, rest) else None
             | None \<Rightarrow> None)
          else None
      | _ \<Rightarrow> None)"

lemma hex4_shorter: "hex4 s = Some (v, rest) \<Longrightarrow> length rest < length s"
  by (auto simp: hex4_def split: list.splits option.splits)

lemma low_surrogate_shorter: "low_surrogate s = Some (v, rest) \<Longrightarrow> length rest < length s"
  by (auto simp: low_surrogate_def split: list.splits option.splits if_splits dest!: hex4_shorter)

text \<open>The characters of a string after its opening quote, up to the closing one.\<close>

function parse_chars :: "pystr \<Rightarrow> pystr \<Rightarrow> (pystr \<times> pystr) option" where
  "parse_chars [] acc = None"
| "parse_chars (c # s) acc =
     (if c = 34 then Some (acc, s)
      else if c = 92 then
        (case s of
           [] \<Rightarrow> None
         | e # s1 \<Rightarrow>
             if e = 117 then
               (case hex4 s1 of
                  None \<Rightarrow> None
                | Some (uni, s2) \<Rightarrow>
                    (case (if 55296 \<le> uni \<and> uni \<le> 56319 then low_surrogate s2 else None) of
                       Some (lo, s3) \<Rightarrow>
                         parse_chars s3 (acc @ [65536 + (uni - 55296) * 1024 + (lo - 56320)])
                     | None \<Rightarrow> parse_chars s2 (acc @ [uni])))
             else (case unescape e of
                     None \<Rightarrow> None
                   | Some ch \<Rightarrow> parse_chars s1 (acc @ [ch])))
      else if c < 32 then None
      else parse_chars s (acc @ [c]))"
  by pat_completeness auto

termination
  by (relation "measure (\<lambda>(s, acc). length s)")
     (auto dest!: hex4_shorter low_surrogate_shorter split: if_splits)

definition expect :: "string \<Rightarrow> json \<Rightarrow> pystr \<Rightarrow> (json \<times> pystr) option" where
  "expect word v s =
     (if take (length word) s = lit word then Some (v, drop (length word) s) else None)"

text \<open>\<open>d[k] = v\<close>.\<close>

definition dict_set :: "(pystr \<times> json) list \<Rightarrow> pystr \<Rightarrow> json \<Rightarrow> (pystr \<times> json) list" where
  "dict_set kvs k v =
     (if k \<in> fst ` set kvs then map (\<lambda>(k', v'). if k' = k then (k', v) else (k', v')) kvs
      else kvs @ [(k, v)])"

fun parse_value :: "(pystr \<Rightarrow> pystr) \<Rightarrow> nat \<Rightarrow> pystr \<Rightarrow> (json \<times> pystr) option"
  and parse_items ::
    "(pystr \<Rightarrow> pystr) \<Rightarrow> nat \<Rightarrow> pystr \<Rightarrow> json list \<Rightarrow> (json list \<times> pystr) option"
  and parse_members ::
    "(pystr \<Rightarrow> pystr) \<Rightarrow> nat \<Rightarrow> pystr \<Rightarrow> (pystr \<times> json) list
       \<Rightarrow> ((pystr \<times> json) list \<times> pystr) option" where
  "parse_value canon 0 s = None"
| "parse_value canon (Suc n) s =
     (case s of
        [] \<Rightarrow> None
      | c # s1 \<Rightarrow>
          if c = 34 then
            (case parse_chars s1 [] of None \<Rightarrow> None | Some (str, rest) \<Rightarrow> Some (JStr str, rest))
          else if c = 91 then
            (case skip_ws s1 of
               [] \<Rightarrow> None
             | d # s2 \<Rightarrow>
                 if d = 93 then Some (JArr [], s2)
                 else (case parse_items canon n (d # s2) [] of
                         None \<Rightarrow> None
                       | Some (xs, rest) \<Rightarrow> Some (JArr xs, rest)))
          else if c = 123 then
            (case skip_ws s1 of
               [] \<Rightarrow> None
             | d # s2 \<Rightarrow>
                 if d = 125 then Some (JObj [], s2)
                 else (case parse_members canon n (d # s2) [] of
                         None \<Rightarrow> None
                       | Some (kvs, rest) \<Rightarrow> Some (JObj kvs, rest)))
          else if c = 110 then expect ''null'' JNull s
          else if c = 116 then expect ''true'' (JBool True) s
          else if c = 102 then expect ''false'' (JBool False) s
          else (case parse_number canon s of
                  Some v \<Rightarrow> Some v
                | None \<Rightarrow>
                    if c = 78 then expect ''NaN'' (JFloat (lit ''nan'')) s
                    else if c = 73 then expect ''Infinity'' (JFloat (lit ''inf'')) s
                    else if c = 45 then expect ''-Infinity'' (JFloat (lit ''-inf'')) s
                    else None))"
| "parse_items canon 0 s acc = None"
| "parse_items canon (Suc n) s acc =
     (case parse_value canon n s of
        None \<Rightarrow> None
      | Some (v, rest) \<Rightarrow>
          (case skip_ws rest of
             [] \<Rightarrow> None
           | c # s1 \<Rightarrow>
               if c = 44 then parse_items canon n (skip_ws s1) (acc @ [v])
               else if c = 93 then Some (acc @ [v], s1)
               else None))"
| "parse_members canon 0 s acc = None"
| "parse_members canon (Suc n) s acc =
     (case s of
        [] \<Rightarrow> None
      | q # s1 \<Rightarrow>
          if q \<noteq> 34 then None
          else (case parse_chars s1 [] of
                  None \<Rightarrow> None
                | Some (k, s2) \<Rightarrow>
                    (case skip_ws s2 of
                       [] \<Rightarrow> None
                     | c # s3 \<Rightarrow>
                         if c \<noteq> 58 then None
                         else (case parse_value canon n (skip_ws s3) of
                                 None \<Rightarrow> None
                               | Some (v, s4) \<Rightarrow>
                                   (case skip_ws s4 of
                                      [] \<Rightarrow> None
                                    | d # s5 \<Rightarrow>
                                        if d = 44 then parse_members canon n (skip_ws s5) (dict_set acc k v)
                                        else if d = 125 then Some (dict_set acc k v, s5)
                                        else None)))))"

definition loads :: "(pystr \<Rightarrow> pystr) \<Rightarrow> pystr \<Rightarrow> json option" where
  "loads canon s =
     (case parse_value canon (Suc (length s)) (skip_ws s) of
        None \<Rightarrow> None
      | Some (v, rest) \<Rightarrow> if skip_ws rest = [] then Some v else None)"

text \<open>
  What follows a value inside the encoder's output: nothing, a comma or a closing
  bracket.
\<close>

definition delimited :: "pystr \<Rightarrow> bool" where
  "delimited rest = (case rest of [] \<Rightarrow> True | c # s \<Rightarrow> c = 44 \<or> c = 93 \<or> c = 125)"

text \<open>
  A text is the \<open>repr\<close> of a float when it is one of \<open>nan\<close>, \<open>inf\<close>, \<open>-inf\<close>, or a number
  with a fraction or an exponent that the conversion gives back unchanged (\<open>0.5\<close> is,
  \<open>0.50\<close> is the same float written otherwise). A Python value is well formed when
  its floats are floats in this sense and no dict in it has a key twice.
\<close>

definition float_syntax :: "pystr \<Rightarrow> bool" where
  "float_syntax t =
     (int_text (scan_number t) \<noteq> []
      \<and> (frac_text (scan_number t) \<noteq> [] \<or> exp_text (scan_number t) \<noteq> [])
      \<and> remainder (scan_number t) = [])"

definition float_repr :: "(pystr \<Rightarrow> pystr) \<Rightarrow> pystr \<Rightarrow> bool" where
  "float_repr canon t =
     (t = lit ''nan'' \<or> t = lit ''inf'' \<or> t = lit ''-inf''
      \<or> (float_syntax t \<and> canon t = t))"

fun well_formed :: "(pystr \<Rightarrow> pystr) \<Rightarrow> json \<Rightarrow> bool"
  and well_formed_items :: "(pystr \<Rightarrow> pystr) \<Rightarrow> json list \<Rightarrow> bool"
  and well_formed_members :: "(pystr \<Rightarrow> pystr) \<Rightarrow> (pystr \<times> json) list \<Rightarrow> bool" where
  "well_formed canon JNull = True"
| "well_formed canon (JBool b) = True"
| "well_formed canon (JInt n) = True"
| "well_formed canon (JFloat t) = float_repr canon t"
| "well_formed canon (JStr s) = True"
| "well_formed canon (JArr xs) = well_formed_items canon xs"
| "well_formed canon (JObj kvs) = (distinct (map fst kvs) \<and> well_formed_members canon kvs)"
| "well_formed_items canon [] = True"
| "well_formed_items canon (x # xs) = (well_formed canon x \<and> well_formed_items canon xs)"
| "well_formed_members canon [] = True"
| "well_formed_members canon ((k, v) # kvs) =
     (well_formed canon v \<and> well_formed_members canon kvs)"

section \<open>Rows and environments used in the examples\<close>

text \<open>The row of a record that has a transactionHash and a timestamp and nothing else.\<close>

definition sample_row :: "string \<Rightarrow> json \<Rightarrow> row" where
  "sample_row h ts =
     \<lparr> transactionHash = JStr (lit h), timestamp = ts, proxyWallet = JNull,
       conditionId = JNull, type_field = JNull, side = JNull, asset = JNull,
       outcome = JNull, outcomeIndex = JNull, price = JNull, size_field = JNull,
       usdcSize = JNull, title = JNull, slug = JNull, eventSlug = JNull, icon = JNull,
       raw_json = [] \<rparr>"

text \<open>An environment in which nothing fails and the feed is empty, and the world at start-up.\<close>

definition calm_env :: env where
  "calm_env = \<lparr> py_repr = (\<lambda>j. []), feed = Inr (JArr []),
     db_fault = (\<lambda>tbl r. None), tg_fault = (\<lambda>n m. None) \<rparr>"

text \<open>An environment in which the request to the feed fails and so does every send.\<close>

definition broken_env :: env where
  "broken_env = \<lparr> py_repr = (\<lambda>j. []),
     feed = Inl (LibraryError (lit ''ConnectError'') (lit ''All connection attempts failed'')),
     db_fault = (\<lambda>tbl r. None),
     tg_fault = (\<lambda>n m. Some (LibraryError (lit ''ConnectError'') [])) \<rparr>"

definition empty_world :: world where
  "empty_world = \<lparr> store = [], outbox = [], sleeps = 0 \<rparr>"

text \<open>A record of the feed with a transactionHash and an integer timestamp, its row and its message.\<close>

definition event_item :: "string \<Rightarrow> int \<Rightarrow> json" where
  "event_item h ts = JObj [(lit ''transactionHash'', JStr (lit h)), (lit ''timestamp'', JInt ts)]"

definition event_row :: "string \<Rightarrow> int \<Rightarrow> row" where
  "event_row h ts = (sample_row h (JInt ts))\<lparr>raw_json := dumps (event_item h ts)\<rparr>"

definition event_text :: "string \<Rightarrow> pystr" where
  "event_text h =
     127381 # lit '' Polymarket activity'' @ 10 # 128257 # lit '' None / None''
       @ 10 # 129534 # lit '' tx='' @ lit h"

text \<open>
  An environment whose feed returns two new events, newest first, and in which the first
  send of the process fails.
\<close>

definition timeout_error :: exn where
  "timeout_error = LibraryError (lit ''ReadTimeout'') []"

definition flaky_env :: env where
  "flaky_env = \<lparr> py_repr = (\<lambda>j. []),
     feed = Inr (JArr [event_item ''b'' 2, event_item ''a'' 1]),
     db_fault = (\<lambda>tbl r. None),
     tg_fault = (\<lambda>n m. if n = 0 then Some timeout_error else None) \<rparr>"

text \<open>
  A row with no title, type, side and size, with a usdcSize and a float price.
\<close>

definition partly_filled_row :: row where
  "partly_filled_row =
     (sample_row ''a'' JNull)\<lparr>usdcSize := JInt 5, price := JFloat (lit ''0.53'')\<rparr>"

text \<open>
  A record with float fields, and the conversion on texts that are the \<open>repr\<close> of a float
  already: it gives them back as they are.
\<close>

definition priced_item :: json where
  "priced_item = JObj
     [(lit ''transactionHash'', JStr (lit ''0xa'')), (lit ''timestamp'', JInt 1700000000),
      (lit ''price'', JFloat (lit ''0.53'')), (lit ''size'', JFloat (lit ''1e-07''))]"

definition as_written :: "pystr \<Rightarrow> pystr" where
  "as_written t = t"

section \<open>Recording is idempotent\<close>

lemma records_of_absent: "\<not> has_key tbl tx \<Longrightarrow> records_of tbl tx = []"
  by (auto simp: has_key_def records_of_def filter_empty_conv)

lemma has_key_append: "has_key (tbl @ [r]) tx = (has_key tbl tx \<or> transactionHash r = tx)"
  by (auto simp: has_key_def)

text \<open>
  Claim C2. For an event that is not yet in the store, the first insert reports one row
  written and the second reports none; the second leaves the table as the first left it,
  and the table then holds exactly one record with the event's transactionHash.
\<close>

theorem record_if_new_idempotent:
  assumes "\<not> has_key tbl (transactionHash e)"
  shows "snd (insert_do_nothing tbl e) = 1
    \<and> snd (insert_do_nothing (fst (insert_do_nothing tbl e)) e) = 0
    \<and> fst (insert_do_nothing (fst (insert_do_nothing tbl e)) e) = fst (insert_do_nothing tbl e)
    \<and> records_of (fst (insert_do_nothing (fst (insert_do_nothing tbl e)) e)) (transactionHash e) = [e]"
  using assms
  by (simp add: insert_do_nothing_def has_key_append records_of_absent)
     (simp add: records_of_def has_key_def filter_empty_conv)

theorem record_if_new_idempotent_witness:
  "\<not> has_key [] (transactionHash (sample_row ''0xa'' (JInt 7)))
   \<and> snd (insert_do_nothing [] (sample_row ''0xa'' (JInt 7))) = 1
   \<and> snd (insert_do_nothing (fst (insert_do_nothing [] (sample_row ''0xa'' (JInt 7))))
          (sample_row ''0xa'' (JInt 7))) = 0
   \<and> fst (insert_do_nothing (fst (insert_do_nothing [] (sample_row ''0xa'' (JInt 7))))
          (sample_row ''0xa'' (JInt 7))) = fst (insert_do_nothing [] (sample_row ''0xa'' (JInt 7)))
   \<and> records_of (fst (insert_do_nothing (fst (insert_do_nothing [] (sample_row ''0xa'' (JInt 7))))
          (sample_row ''0xa'' (JInt 7)))) (transactionHash (sample_row ''0xa'' (JInt 7)))
       = [sample_row ''0xa'' (JInt 7)]"
proof -
  have fresh: "\<not> has_key [] (transactionHash (sample_row ''0xa'' (JInt 7)))"
    by (simp add: has_key_def)
  from fresh record_if_new_idempotent [OF fresh] show ?thesis
    by (rule conjI)
qed

section \<open>Records without a usable transactionHash\<close>

lemma record_items_skip:
  assumes "normalize_item item = Inr r" and "\<not> truthy (transactionHash r)"
  shows "record_items ev (xs @ item # ys) tbl new_rows = record_items ev (xs @ ys) tbl new_rows"
  using assms
  by (induction xs arbitrary: tbl new_rows)
     (auto split: sum.splits option.splits prod.splits)

lemma record_items_feed [simp]:
  "record_items (ev\<lparr>feed := f\<rparr>) items tbl new_rows = record_items ev items tbl new_rows"
  by (induction items arbitrary: tbl new_rows)
     (auto split: sum.splits option.splits prod.splits)

lemma telegram_send_feed [simp]:
  "telegram_send (ev\<lparr>feed := f\<rparr>) n ob = telegram_send ev n ob"
  by (simp add: telegram_send_def)

lemma deliver_feed [simp]: "deliver (ev\<lparr>feed := f\<rparr>) rs ob = deliver ev rs ob"
  by (induction rs arbitrary: ob) (auto split: sum.splits option.splits prod.splits)

lemma cycle_skip:
  assumes "normalize_item item = Inr r" and "\<not> truthy (transactionHash r)"
  shows "cycle (ev\<lparr>feed := Inr (JArr (xs @ item # ys))\<rparr>) w
       = cycle (ev\<lparr>feed := Inr (JArr (xs @ ys))\<rparr>) w"
  using record_items_skip [OF assms, of ev xs ys "store w" "[]"]
  by (simp add: cycle_def try_block_def except_block_def fetch_activity_def
           split: sum.split prod.split option.split)

lemma sort_new_rows_Nil [simp]: "sort_new_rows [] = Inr []"
  by (simp add: sort_new_rows_def)

lemma cycle_skip_single:
  assumes "normalize_item item = Inr r" and "\<not> truthy (transactionHash r)"
  shows "cycle (ev\<lparr>feed := Inr (JArr [item])\<rparr>) w = Inr (sleep w)"
  using assms
  by (simp add: cycle_def try_block_def fetch_activity_def)

text \<open>
  Claim C4. A fetched record that has no transactionHash is skipped: the recording loop
  and the whole cycle do exactly what they do on the batch without that record (the same
  writes, the same notifications, the same exceptions), and a batch made of that record
  alone leaves the store and the log of sends untouched and goes to sleep.
\<close>

theorem missing_txhash_skipped:
  assumes "map_of item (lit ''transactionHash'') = None"
  shows "record_items ev (xs @ JObj item # ys) tbl new_rows
           = record_items ev (xs @ ys) tbl new_rows
       \<and> cycle (ev\<lparr>feed := Inr (JArr (xs @ JObj item # ys))\<rparr>) w
           = cycle (ev\<lparr>feed := Inr (JArr (xs @ ys))\<rparr>) w
       \<and> cycle (ev\<lparr>feed := Inr (JArr [JObj item])\<rparr>) w = Inr (sleep w)"
proof -
  obtain r where r: "normalize_item (JObj item) = Inr r"
    by simp
  with assms have "\<not> truthy (transactionHash r)"
    by (auto simp: dget_def)
  with r show ?thesis
    by (simp add: record_items_skip cycle_skip cycle_skip_single)
qed

theorem missing_txhash_skipped_witness:
  "map_of [(lit ''title'', JStr (lit ''x''))] (lit ''transactionHash'') = None
   \<and> cycle (calm_env\<lparr>feed := Inr (JArr [JObj [(lit ''title'', JStr (lit ''x''))]])\<rparr>) empty_world
       = Inr (sleep empty_world)"
proof -
  have absent: "map_of [(lit ''title'', JStr (lit ''x''))] (lit ''transactionHash'') = None"
    by (simp add: lit_def)
  from absent missing_txhash_skipped [OF absent, of calm_env "[]" "[]" "[]" "[]" empty_world]
  show ?thesis
    by blast
qed

text \<open>
  Claim C10. A record whose transactionHash is present but falsy (the empty string, 0,
  \<open>False\<close>, \<open>None\<close>, an empty list or dict) is skipped in the same way: the test is
  \<open>if not tx\<close>, the truth value of the normalised field.
\<close>

theorem falsy_txhash_skipped:
  assumes "map_of item (lit ''transactionHash'') = Some v" and "\<not> truthy v"
  shows "record_items ev (xs @ JObj item # ys) tbl new_rows
           = record_items ev (xs @ ys) tbl new_rows
       \<and> cycle (ev\<lparr>feed := Inr (JArr (xs @ JObj item # ys))\<rparr>) w
           = cycle (ev\<lparr>feed := Inr (JArr (xs @ ys))\<rparr>) w
       \<and> cycle (ev\<lparr>feed := Inr (JArr [JObj item])\<rparr>) w = Inr (sleep w)"
proof -
  obtain r where r: "normalize_item (JObj item) = Inr r"
    by simp
  with assms have "\<not> truthy (transactionHash r)"
    by (auto simp: dget_def)
  with r show ?thesis
    by (simp add: record_items_skip cycle_skip cycle_skip_single)
qed

theorem falsy_txhash_skipped_witness:
  "map_of [(lit ''transactionHash'', JStr [])] (lit ''transactionHash'') = Some (JStr [])
   \<and> \<not> truthy (JStr [])
   \<and> cycle (calm_env\<lparr>feed := Inr (JArr [JObj [(lit ''transactionHash'', JStr [])]])\<rparr>) empty_world
       = Inr (sleep empty_world)"
proof -
  have present: "map_of [(lit ''transactionHash'', JStr [])] (lit ''transactionHash'') = Some (JStr [])"
    by simp
  have falsy: "\<not> truthy (JStr [])"
    by simp
  from present falsy
    falsy_txhash_skipped [OF present falsy, of calm_env "[]" "[]" "[]" "[]" empty_world]
  show ?thesis
    by blast
qed

section \<open>Errors stop at the cycle boundary\<close>

lemma failure_count_append [simp]:
  "failure_count (ob @ ob') = failure_count ob + failure_count ob'"
  by (simp add: failure_count_def)

lemma deliver_failure_count: "failure_count (fst (deliver ev rs ob)) = failure_count ob"
  by (induction rs arbitrary: ob)
     (auto simp: telegram_send_def failure_count_def split: sum.splits option.splits)

lemma try_block_failure_count:
  "failure_count (outbox (fst (try_block ev w))) = failure_count (outbox w)"
  by (auto simp: try_block_def split: sum.splits prod.splits
           dest: arg_cong [where f = "\<lambda>p. failure_count (fst p)"] simp: deliver_failure_count)

lemma try_block_sleeps: "sleeps (fst (try_block ev w)) = sleeps w"
  by (auto simp: try_block_def split: sum.splits prod.splits)

lemma cycle_total:
  "\<exists>w'. cycle ev w = Inr w' \<and> sleeps w' = Suc (sleeps w)
     \<and> failure_count (outbox w')
         = failure_count (outbox w) + (case snd (try_block ev w) of None \<Rightarrow> 0 | Some e \<Rightarrow> 1)"
proof (cases "try_block ev w")
  case (Pair w1 r)
  with try_block_failure_count [of ev w] try_block_sleeps [of ev w]
  show ?thesis
    by (cases r)
       (auto simp: cycle_def except_block_def telegram_send_def sleep_def failure_count_def
             split: option.splits)
qed

lemma run_total: "\<exists>w'. run evs n w = Inr w' \<and> sleeps w' = sleeps w + n"
proof (induction n)
  case 0
  show ?case by simp
next
  case (Suc n)
  then obtain w1 where w1: "run evs n w = Inr w1" "sleeps w1 = sleeps w + n"
    by blast
  from cycle_total [of "evs n" w1] w1 show ?case
    by auto
qed

text \<open>
  Claim C5. Whatever the environment does, a cycle ends in the sleep step and no
  exception leaves it: the number of error reports sent grows by one when the \<open>try\<close>
  block raised (fetch failure, wrong shape, a failing store write, a failing send or an
  exception of the interpreter) and by none otherwise, whether or not the report itself
  was delivered; and the loop completes any number of iterations.
\<close>

theorem errors_caught_at_cycle_boundary:
  "(\<exists>w'. cycle ev w = Inr w' \<and> sleeps w' = Suc (sleeps w)
      \<and> failure_count (outbox w')
          = failure_count (outbox w) + (case snd (try_block ev w) of None \<Rightarrow> 0 | Some e \<Rightarrow> 1))
   \<and> (\<exists>w'. run evs n w = Inr w' \<and> sleeps w' = sleeps w + n)"
  using cycle_total run_total by blast

theorem errors_caught_at_cycle_boundary_witness:
  "(\<exists>w'. cycle broken_env empty_world = Inr w' \<and> sleeps w' = Suc (sleeps empty_world)
      \<and> failure_count (outbox w')
          = failure_count (outbox empty_world)
            + (case snd (try_block broken_env empty_world) of None \<Rightarrow> 0 | Some e \<Rightarrow> 1))
   \<and> (\<exists>w'. run (\<lambda>i. broken_env) 3 empty_world = Inr w'
         \<and> sleeps w' = sleeps empty_world + 3)"
  by (rule errors_caught_at_cycle_boundary)

section \<open>A failed notification\<close>

lemma normalize_event_item: "normalize_item (event_item h ts) = Inr (event_row h ts)"
  by (simp add: event_item_def event_row_def sample_row_def dget_def lit_def)

lemma format_event_row: "format_message rp (event_row h ts) = Inr (event_text h)"
  by (simp add: format_message_def message_lines_def title_text_def py_or_def strip_def
        event_row_def sample_row_def event_text_def lit_def)

lemma event_row_key [simp]: "transactionHash (event_row h ts) = JStr (lit h)"
  by (simp add: event_row_def sample_row_def)

lemma event_row_ts [simp]: "timestamp (event_row h ts) = JInt ts"
  by (simp add: event_row_def sample_row_def)

lemma lit_inj [simp]: "(lit s = lit t) = (s = t)"
  by (simp add: lit_def inj_map_eq_map inj_on_def)

lemma record_two:
  "record_items flaky_env [event_item ''b'' 2, event_item ''a'' 1] [] []
     = Inr ([event_row ''b'' 2, event_row ''a'' 1], [event_row ''b'' 2, event_row ''a'' 1])"
  by (simp add: normalize_event_item flaky_env_def insert_do_nothing_def has_key_def lit_def)

lemma sort_two:
  "sort_new_rows [event_row ''b'' 2, event_row ''a'' 1] = Inr [event_row ''a'' 1, event_row ''b'' 2]"
  by (simp add: sort_new_rows_def comparable_def py_lt.simps timestamp_key_def py_or_def key_less_def)

lemma flaky_fields:
  "fetch_activity flaky_env = Inr [event_item ''b'' 2, event_item ''a'' 1]"
  "tg_fault flaky_env = (\<lambda>n m. if n = 0 then Some timeout_error else None)"
  by (simp_all add: fetch_activity_def flaky_env_def)

lemma deliver_two:
  "deliver flaky_env [event_row ''a'' 1, event_row ''b'' 2] []
     = ([(Activity (event_row ''a'' 1) (event_text ''a''), False)], Some timeout_error)"
  by (simp add: format_event_row telegram_send_def flaky_fields)

text \<open>
  Two new events, and the send of the first one in delivery order fails. Both rows are in
  the store afterwards, but the exception leaves the \<open>for\<close> loop: the log of sends
  holds the failed message of \<open>a\<close> and the error report, and no call for \<open>b\<close>.
\<close>

theorem second_notification_not_attempted:
  "cycle flaky_env empty_world
     = Inr \<lparr> store = [event_row ''b'' 2, event_row ''a'' 1],
             outbox = [(Activity (event_row ''a'' 1) (event_text ''a''), False),
                       (Failure timeout_error, True)],
             sleeps = 1 \<rparr>"
  by (simp add: cycle_def try_block_def flaky_fields record_two
        sort_two deliver_two telegram_send_def except_block_def sleep_def
        empty_world_def del: record_items.simps deliver.simps)


lemma record_items_grows:
  assumes "record_items ev items tbl new_rows = Inr (tbl', new_rows')"
    and "set new_rows \<subseteq> set tbl"
  shows "set new_rows' \<subseteq> set tbl' \<and> set tbl \<subseteq> set tbl'"
  using assms
proof (induction items arbitrary: tbl new_rows)
  case Nil
  then show ?case by auto
next
  case (Cons item items)
  show ?case
  proof (cases "normalize_item item")
    case (Inl e)
    with Cons.prems show ?thesis by simp
  next
    case (Inr r)
    show ?thesis
    proof (cases "truthy (transactionHash r)")
      case False
      with Inr Cons show ?thesis by simp
    next
      case True
      with Inr Cons.prems obtain t n where
        ins: "insert_do_nothing tbl r = (t, n)" and
        rest: "record_items ev items t (if n = 1 then new_rows @ [r] else new_rows)
                 = Inr (tbl', new_rows')"
        by (auto split: option.splits prod.splits)
      from ins have t: "set tbl \<subseteq> set t" "n = 1 \<longrightarrow> r \<in> set t"
        by (auto simp: insert_do_nothing_def split: if_splits)
      with Cons.prems(2) have "set (if n = 1 then new_rows @ [r] else new_rows) \<subseteq> set t"
        by auto
      from Cons.IH [OF rest this] t show ?thesis
        by auto
    qed
  qed
qed

lemma mset_insert_row: "mset (insert_row x ys) = add_mset x (mset ys)"
  by (induction ys) auto

lemma mset_foldr_insert_row: "mset (foldr insert_row xs []) = mset xs"
  by (induction xs) (auto simp: mset_insert_row)

lemma sort_new_rows_mset: "sort_new_rows xs = Inr ys \<Longrightarrow> mset ys = mset xs"
  by (auto simp: sort_new_rows_def mset_foldr_insert_row split: if_splits)

text \<open>
  Claim C1, amended. When the send of the first row in delivery order fails, the rows
  recorded in this cycle stay in the store, which is the table the recording loop
  committed; no further row of the batch is sent, and the one call that follows is the
  error report (delivered or not, as the environment decides) before the sleep.
\<close>

theorem failed_notification_ends_batch:
  assumes "fetch_activity ev = Inr items"
    and "record_items ev items (store w) [] = Inr (tbl, new_rows)"
    and "sort_new_rows new_rows = Inr (r # rs)"
    and "format_message (py_repr ev) r = Inr msg"
    and "tg_fault ev (length (outbox w)) (Activity r msg) = Some e"
  shows "cycle ev w = Inr (w\<lparr> store := tbl,
             outbox := outbox w @ [(Activity r msg, False),
               (Failure e, tg_fault ev (Suc (length (outbox w))) (Failure e) = None)],
             sleeps := Suc (sleeps w) \<rparr>)
       \<and> set (r # rs) \<subseteq> set tbl"
proof -
  from assms(4,5) have "deliver ev (r # rs) (outbox w) = (outbox w @ [(Activity r msg, False)], Some e)"
    by (simp add: telegram_send_def)
  with assms(1-3) have "try_block ev w
      = (w\<lparr>store := tbl, outbox := outbox w @ [(Activity r msg, False)]\<rparr>, Some e)"
    by (simp add: try_block_def del: deliver.simps)
  then have "cycle ev w = Inr (w\<lparr> store := tbl,
             outbox := outbox w @ [(Activity r msg, False),
               (Failure e, tg_fault ev (Suc (length (outbox w))) (Failure e) = None)],
             sleeps := Suc (sleeps w) \<rparr>)"
    by (simp add: cycle_def except_block_def telegram_send_def sleep_def split: option.split)
  moreover from record_items_grows [OF assms(2)] have "set new_rows \<subseteq> set tbl"
    by simp
  with sort_new_rows_mset [OF assms(3)] have "set (r # rs) \<subseteq> set tbl"
    by (metis mset_eq_setD)
  ultimately show ?thesis
    by blast
qed

theorem failed_notification_ends_batch_witness:
  "fetch_activity flaky_env = Inr [event_item ''b'' 2, event_item ''a'' 1]
   \<and> record_items flaky_env [event_item ''b'' 2, event_item ''a'' 1] (store empty_world) []
       = Inr ([event_row ''b'' 2, event_row ''a'' 1], [event_row ''b'' 2, event_row ''a'' 1])
   \<and> sort_new_rows [event_row ''b'' 2, event_row ''a'' 1]
       = Inr [event_row ''a'' 1, event_row ''b'' 2]
   \<and> format_message (py_repr flaky_env) (event_row ''a'' 1) = Inr (event_text ''a'')
   \<and> tg_fault flaky_env (length (outbox empty_world))
        (Activity (event_row ''a'' 1) (event_text ''a'')) = Some timeout_error
   \<and> set [event_row ''a'' 1, event_row ''b'' 2] \<subseteq> set [event_row ''b'' 2, event_row ''a'' 1]"
proof -
  have a: "fetch_activity flaky_env = Inr [event_item ''b'' 2, event_item ''a'' 1]"
    by (rule flaky_fields)
  have b: "record_items flaky_env [event_item ''b'' 2, event_item ''a'' 1] (store empty_world) []
       = Inr ([event_row ''b'' 2, event_row ''a'' 1], [event_row ''b'' 2, event_row ''a'' 1])"
    by (simp add: empty_world_def record_two del: record_items.simps)
  have c: "sort_new_rows [event_row ''b'' 2, event_row ''a'' 1]
       = Inr [event_row ''a'' 1, event_row ''b'' 2]"
    by (rule sort_two)
  have d: "format_message (py_repr flaky_env) (event_row ''a'' 1) = Inr (event_text ''a'')"
    by (rule format_event_row)
  have e: "tg_fault flaky_env (length (outbox empty_world))
        (Activity (event_row ''a'' 1) (event_text ''a'')) = Some timeout_error"
    by (simp add: flaky_fields empty_world_def)
  from failed_notification_ends_batch [OF a b c d e] a b c d e show ?thesis
    by blast
qed

section \<open>The lines of a message\<close>

text \<open>
  A row in which every optional field is absent. Its message has three lines: the
  heading, the line of type and side, which reads \<open>None / None\<close>, and the line of the
  transaction; the line of the absent type and side is not left out.
\<close>

theorem type_side_line_kept:
  "format_message (py_repr calm_env) (sample_row ''a'' JNull)
     = Inr (127381 # lit '' Polymarket activity'' @ 10 # 128257 # lit '' None / None''
              @ 10 # 129534 # lit '' tx=a'')"
  by (simp add: format_message_def message_lines_def title_text_def py_or_def strip_def
        sample_row_def lit_def)

lemma title_text_cases:
  assumes "title r = JNull \<or> title r = JStr s"
  shows "title_text r = Inr (if title r = JNull then [] else strip s)"
  using assms by (auto simp: title_text_def py_or_def strip_def)

text \<open>
  Claim C8, amended. The message is a function of seven fields of the row (title, type,
  side, size, usdcSize, price, transactionHash) and of nothing else, and a row whose
  title is absent or a string never raises. The lines are, in this order: the heading;
  the stripped title, only when it is not empty; type and side, always, an absent value
  printed as \<open>None\<close>; size and usdcSize on one line, left out only when both are
  \<open>None\<close>, so that a single absent one of the two is printed as \<open>None\<close>; the price,
  only when it is not \<open>None\<close>; the transaction, always.
\<close>

theorem optional_fields_in_message:
  assumes "title r = JNull \<or> title r = JStr s"
  shows "\<exists>ls. format_message rp r = Inr (join [10] ls)
     \<and> message_lines rp r = Inr ls
     \<and> ls = [127381 # lit '' Polymarket activity'']
          @ (if title r = JNull \<or> strip s = [] then [] else [128221 # 32 # strip s])
          @ [128257 # 32 # py_str rp (type_field r) @ lit '' / '' @ py_str rp (side r)]
          @ (if size_field r = JNull \<and> usdcSize r = JNull then []
             else [128230 # lit '' size='' @ py_str rp (size_field r)
                     @ lit '' | usdc='' @ py_str rp (usdcSize r)])
          @ (if price r = JNull then [] else [128178 # lit '' price='' @ py_str rp (price r)])
          @ [129534 # lit '' tx='' @ py_str rp (transactionHash r)]
     \<and> map hd ls =
         127381 # (if title r = JNull \<or> strip s = [] then [] else [128221])
         @ 128257 # (if size_field r = JNull \<and> usdcSize r = JNull then [] else [128230])
         @ (if price r = JNull then [] else [128178]) @ [129534]
     \<and> 128257 # 32 # py_str rp (type_field r) @ lit '' / '' @ py_str rp (side r) \<in> set ls
     \<and> (type_field r = JNull \<and> side r = JNull
          \<longrightarrow> 128257 # lit '' None / None'' \<in> set ls)
     \<and> (size_field r = JNull \<and> usdcSize r \<noteq> JNull
          \<longrightarrow> 128230 # lit '' size=None | usdc='' @ py_str rp (usdcSize r) \<in> set ls)
     \<and> (size_field r \<noteq> JNull \<and> usdcSize r = JNull
          \<longrightarrow> 128230 # lit '' size='' @ py_str rp (size_field r) @ lit '' | usdc=None''
                \<in> set ls)
     \<and> py_str rp JNull = lit ''None''
     \<and> (\<forall>r'. title r' = title r \<and> type_field r' = type_field r \<and> side r' = side r
            \<and> size_field r' = size_field r \<and> usdcSize r' = usdcSize r
            \<and> price r' = price r \<and> transactionHash r' = transactionHash r
          \<longrightarrow> format_message rp r' = format_message rp r)"
proof -
  let ?ls = "[127381 # lit '' Polymarket activity'']
          @ (if title r = JNull \<or> strip s = [] then [] else [128221 # 32 # strip s])
          @ [128257 # 32 # py_str rp (type_field r) @ lit '' / '' @ py_str rp (side r)]
          @ (if size_field r = JNull \<and> usdcSize r = JNull then []
             else [128230 # lit '' size='' @ py_str rp (size_field r)
                     @ lit '' | usdc='' @ py_str rp (usdcSize r)])
          @ (if price r = JNull then [] else [128178 # lit '' price='' @ py_str rp (price r)])
          @ [129534 # lit '' tx='' @ py_str rp (transactionHash r)]"
  have lines: "message_lines rp r = Inr ?ls"
    using title_text_cases [OF assms] by (auto simp: message_lines_def)
  have same: "format_message rp r' = format_message rp r"
    if "title r' = title r \<and> type_field r' = type_field r \<and> side r' = side r
        \<and> size_field r' = size_field r \<and> usdcSize r' = usdcSize r
        \<and> price r' = price r \<and> transactionHash r' = transactionHash r" for r'
  proof -
    from that have "title_text r' = title_text r"
      by (simp add: title_text_def)
    with that have "message_lines rp r' = message_lines rp r"
      by (simp add: message_lines_def cong: sum.case_cong)
    then show ?thesis
      by (simp add: format_message_def)
  qed
  show ?thesis
  proof (intro exI [of _ ?ls] conjI)
    show "format_message rp r = Inr (join [10] ?ls)"
      by (simp only: format_message_def lines sum.case)
    show "message_lines rp r = Inr ?ls"
      by (rule lines)
    show "?ls = ?ls"
      by (rule refl)
    show "map hd ?ls =
         127381 # (if title r = JNull \<or> strip s = [] then [] else [128221])
         @ 128257 # (if size_field r = JNull \<and> usdcSize r = JNull then [] else [128230])
         @ (if price r = JNull then [] else [128178]) @ [129534]"
      by (simp add: lit_def)
    show "128257 # 32 # py_str rp (type_field r) @ lit '' / '' @ py_str rp (side r) \<in> set ?ls"
      by simp
    show "type_field r = JNull \<and> side r = JNull \<longrightarrow> 128257 # lit '' None / None'' \<in> set ?ls"
      by (simp add: lit_def)
    show "size_field r = JNull \<and> usdcSize r \<noteq> JNull
          \<longrightarrow> 128230 # lit '' size=None | usdc='' @ py_str rp (usdcSize r) \<in> set ?ls"
      by (simp add: lit_def)
    show "size_field r \<noteq> JNull \<and> usdcSize r = JNull
          \<longrightarrow> 128230 # lit '' size='' @ py_str rp (size_field r) @ lit '' | usdc=None''
                \<in> set ?ls"
      by (simp add: lit_def)
    show "py_str rp JNull = lit ''None''"
      by simp
    show "\<forall>r'. title r' = title r \<and> type_field r' = type_field r \<and> side r' = side r
            \<and> size_field r' = size_field r \<and> usdcSize r' = usdcSize r
            \<and> price r' = price r \<and> transactionHash r' = transactionHash r
          \<longrightarrow> format_message rp r' = format_message rp r"
      using same by blast
  qed
qed

theorem optional_fields_in_message_witness:
  "(title partly_filled_row = JNull \<or> title partly_filled_row = JStr [])
   \<and> format_message (py_repr calm_env) partly_filled_row
       = Inr (join [10]
           [127381 # lit '' Polymarket activity'',
            128257 # lit '' None / None'',
            128230 # lit '' size=None | usdc=5'',
            128178 # lit '' price=0.53'',
            129534 # lit '' tx=a''])"
proof -
  have absent: "title partly_filled_row = JNull \<or> title partly_filled_row = JStr []"
    by (simp add: partly_filled_row_def sample_row_def)
  from optional_fields_in_message [OF absent, of "py_repr calm_env"] obtain ls where
    "format_message (py_repr calm_env) partly_filled_row = Inr (join [10] ls)"
    "ls = [127381 # lit '' Polymarket activity'']
          @ (if title partly_filled_row = JNull \<or> strip [] = []
             then [] else [128221 # 32 # strip []])
          @ [128257 # 32 # py_str (py_repr calm_env) (type_field partly_filled_row)
               @ lit '' / '' @ py_str (py_repr calm_env) (side partly_filled_row)]
          @ (if size_field partly_filled_row = JNull \<and> usdcSize partly_filled_row = JNull
             then []
             else [128230 # lit '' size=''
                     @ py_str (py_repr calm_env) (size_field partly_filled_row)
                     @ lit '' | usdc=''
                     @ py_str (py_repr calm_env) (usdcSize partly_filled_row)])
          @ (if price partly_filled_row = JNull then []
             else [128178 # lit '' price=''
                     @ py_str (py_repr calm_env) (price partly_filled_row)])
          @ [129534 # lit '' tx=''
               @ py_str (py_repr calm_env) (transactionHash partly_filled_row)]"
    by (elim exE conjE)
  then have "format_message (py_repr calm_env) partly_filled_row
       = Inr (join [10]
           [127381 # lit '' Polymarket activity'',
            128257 # lit '' None / None'',
            128230 # lit '' size=None | usdc=5'',
            128178 # lit '' price=0.53'',
            129534 # lit '' tx=a''])"
    by (simp add: partly_filled_row_def sample_row_def lit_def str_int_def str_nat.simps)
  with absent show ?thesis
    by (rule conjI)
qed

section \<open>The delivery order\<close>

lemma py_lt_numeric:
  assumes "py_num a = Some m" and "py_num b = Some n"
  shows "py_lt a b = Inr (m < n)"
  using assms by (cases a; cases b) (auto simp: py_lt.simps)

lemma comparable_numeric:
  "py_num a \<noteq> None \<Longrightarrow> py_num b \<noteq> None \<Longrightarrow> comparable a b"
  by (auto simp: comparable_def py_lt_numeric)

lemma sortable_numeric: "\<forall>k \<in> set ks. py_num k \<noteq> None \<Longrightarrow> sortable ks"
  by (induction ks) (auto simp: comparable_numeric)

lemma key_less_numeric:
  assumes "int_key x \<noteq> None" and "int_key y \<noteq> None"
  shows "key_less x y = (key_value x < key_value y)"
  using assms by (auto simp: key_less_def int_key_def key_value_def py_lt_numeric)

lemma insert_row_insort:
  assumes "int_key x \<noteq> None" and "\<forall>y \<in> set ys. int_key y \<noteq> None"
  shows "insert_row x ys = insort_key key_value x ys"
  using assms by (induction ys) (auto simp: key_less_numeric)

lemma foldr_insert_row_sort:
  assumes "\<forall>y \<in> set xs. int_key y \<noteq> None"
  shows "foldr insert_row xs [] = List.sort_key key_value xs"
  using assms
proof (induction xs)
  case Nil
  show ?case by simp
next
  case (Cons x xs)
  then have "\<forall>y \<in> set (List.sort_key key_value xs). int_key y \<noteq> None"
    by simp
  with Cons show ?case
    by (simp add: insert_row_insort)
qed

lemma sort_new_rows_numeric:
  assumes "\<forall>r \<in> set xs. int_key r \<noteq> None"
  shows "sort_new_rows xs = Inr (List.sort_key key_value xs)"
  using assms
  by (simp add: sort_new_rows_def foldr_insert_row_sort sortable_numeric int_key_def)

lemma falsy_key: "\<not> truthy (timestamp r) \<Longrightarrow> int_key r = Some 0"
  by (simp add: int_key_def timestamp_key_def py_or_def)

lemma sent_rows_append [simp]: "sent_rows (ob @ ob') = sent_rows ob @ sent_rows ob'"
  by (simp add: sent_rows_def)

lemma sent_rows_activity [simp]: "sent_rows [(Activity r m, d)] = [r]"
  by (simp add: sent_rows_def)

lemma deliver_in_order:
  "\<exists>k \<le> length rs. sent_rows (fst (deliver ev rs ob)) = sent_rows ob @ take k rs
     \<and> (snd (deliver ev rs ob) = None \<longrightarrow> k = length rs)"
proof (induction rs arbitrary: ob)
  case Nil
  show ?case by simp
next
  case (Cons r rs)
  show ?case
  proof (cases "format_message (py_repr ev) r")
    case (Inl e)
    then have "deliver ev (r # rs) ob = (ob, Some e)"
      by simp
    then show ?thesis
      by (intro exI [of _ 0]) (simp del: deliver.simps)
  next
    case (Inr msg)
    show ?thesis
    proof (cases "tg_fault ev (length ob) (Activity r msg)")
      case (Some e)
      with Inr have "deliver ev (r # rs) ob = (ob @ [(Activity r msg, False)], Some e)"
        by (simp add: telegram_send_def)
      then show ?thesis
        by (intro exI [of _ 1]) (simp del: deliver.simps)
    next
      case None
      with Inr have step: "deliver ev (r # rs) ob = deliver ev rs (ob @ [(Activity r msg, True)])"
        by (simp add: telegram_send_def)
      from Cons [of "ob @ [(Activity r msg, True)]"] obtain k where
        k: "k \<le> length rs"
        "sent_rows (fst (deliver ev rs (ob @ [(Activity r msg, True)])))
           = (sent_rows ob @ [r]) @ take k rs"
        "snd (deliver ev rs (ob @ [(Activity r msg, True)])) = None \<longrightarrow> k = length rs"
        by auto
      show ?thesis
      proof (intro exI [of _ "Suc k"] conjI)
        show "Suc k \<le> length (r # rs)"
          using k(1) by simp
        show "sent_rows (fst (deliver ev (r # rs) ob)) = sent_rows ob @ take (Suc k) (r # rs)"
          unfolding step k(2) by simp
        show "snd (deliver ev (r # rs) ob) = None \<longrightarrow> Suc k = length (r # rs)"
          unfolding step using k(3) by simp
      qed
    qed
  qed
qed

lemma mset_short_eq:
  assumes "mset as = mset bs" and "length as \<le> 1"
  shows "as = bs"
proof -
  from assms(1) have "length as = length bs"
    by (rule mset_eq_length)
  with assms show ?thesis
    by (cases as; cases bs) auto
qed

lemma filter_key_short:
  "distinct (map f xs) \<Longrightarrow> length (filter (\<lambda>x. f x = k) xs) \<le> 1"
  by (induction xs) (auto simp: filter_empty_conv image_iff)

lemma sort_key_of_permutation:
  assumes "mset xs = mset ys" and "distinct (map f xs)"
  shows "List.sort_key f xs = List.sort_key f ys"
proof (rule properties_for_sort_key)
  show "mset (List.sort_key f ys) = mset xs"
    using assms(1) by simp
  show "sorted (map f (List.sort_key f ys))"
    by (rule sorted_sort_key)
  fix k
  have "mset (filter (\<lambda>x. f x = f k) xs) = mset (filter (\<lambda>x. f x = f k) ys)"
    using assms(1) by (simp only: mset_filter)
  then have "filter (\<lambda>x. f x = f k) xs = filter (\<lambda>x. f x = f k) ys"
    using filter_key_short [OF assms(2)] by (rule mset_short_eq)
  then show "filter (\<lambda>x. f k = f x) (List.sort_key f ys) = filter (\<lambda>x. f k = f x) xs"
    using sort_key_stable [of f "f k" ys] by (simp add: eq_commute [of "f k"])
qed

lemma sample_row_fields [simp]:
  "timestamp (sample_row h ts) = ts"
  "transactionHash (sample_row h ts) = JStr (lit h)"
  by (simp_all add: sample_row_def)

lemma sample_row_eq [simp]: "(sample_row h ts = sample_row h' ts') = (h = h' \<and> ts = ts')"
  by (auto simp: sample_row_def lit_def inj_map_eq_map inj_on_def)

lemma sample_row_int_key [simp]: "int_key (sample_row h (JInt n)) = Some n"
  by (simp add: int_key_def timestamp_key_def py_or_def)

lemma sort_pair:
  assumes "py_num (py_or s (JInt 0)) = Some m" and "py_num (py_or t (JInt 0)) = Some n"
  shows "sort_new_rows [sample_row h s, sample_row h' t]
     = Inr (if n < m then [sample_row h' t, sample_row h s] else [sample_row h s, sample_row h' t])"
  using assms
  by (simp add: sort_new_rows_def comparable_def timestamp_key_def key_less_def py_lt_numeric)

text \<open>
  A batch of two new rows: \<open>y\<close>, fetched first, has no timestamp; \<open>x\<close> has the
  timestamp \<open>-5\<close>. The row without a timestamp is delivered last: its key is 0, not a
  value below every timestamp.
\<close>

theorem missing_timestamp_after_negative:
  "sort_new_rows [sample_row ''y'' JNull, sample_row ''x'' (JInt (- 5))]
     = Inr [sample_row ''x'' (JInt (- 5)), sample_row ''y'' JNull]"
  by (simp add: sort_pair [where m = 0 and n = "- 5"] py_or_def)

text \<open>
  Claim C3, amended. When every timestamp of the batch is an integer (or a bool) or is
  missing or falsy, the sort succeeds and gives a permutation of the batch in
  non-decreasing key order, rows of equal key staying in fetch order, whatever the order
  of the feed; the key of a row is its timestamp, and 0 when the timestamp is missing.
  The sends then follow that list from its head: the rows sent are a prefix of it, and
  all of it when no send fails.
\<close>

theorem stable_sort_by_timestamp:
  assumes "\<forall>r \<in> set new_rows. int_key r \<noteq> None"
  shows "\<exists>ys. sort_new_rows new_rows = Inr ys
     \<and> mset ys = mset new_rows
     \<and> sorted (map key_value ys)
     \<and> (\<forall>k. filter (\<lambda>r. key_value r = k) ys = filter (\<lambda>r. key_value r = k) new_rows)
     \<and> (\<forall>r \<in> set new_rows. \<not> truthy (timestamp r) \<longrightarrow> key_value r = 0)
     \<and> (\<forall>r \<in> set new_rows. \<forall>n. timestamp r = JInt n \<longrightarrow> key_value r = n)
     \<and> (\<forall>ev ob. \<exists>k \<le> length ys.
           sent_rows (fst (deliver ev ys ob)) = sent_rows ob @ take k ys
           \<and> (snd (deliver ev ys ob) = None \<longrightarrow> k = length ys))"
proof -
  let ?ys = "List.sort_key key_value new_rows"
  have "sort_new_rows new_rows = Inr ?ys"
    using assms by (rule sort_new_rows_numeric)
  moreover have "mset ?ys = mset new_rows"
    by simp
  moreover have "sorted (map key_value ?ys)"
    by (rule sorted_sort_key)
  moreover have "\<forall>k. filter (\<lambda>r. key_value r = k) ?ys = filter (\<lambda>r. key_value r = k) new_rows"
    by (simp add: sort_key_stable)
  moreover have "\<forall>r \<in> set new_rows. \<not> truthy (timestamp r) \<longrightarrow> key_value r = 0"
    by (simp add: key_value_def falsy_key)
  moreover have "\<forall>r \<in> set new_rows. \<forall>n. timestamp r = JInt n \<longrightarrow> key_value r = n"
    by (simp add: key_value_def int_key_def timestamp_key_def py_or_def)
  moreover have "\<forall>ev ob. \<exists>k \<le> length ?ys.
           sent_rows (fst (deliver ev ?ys ob)) = sent_rows ob @ take k ?ys
           \<and> (snd (deliver ev ?ys ob) = None \<longrightarrow> k = length ?ys)"
    using deliver_in_order by blast
  ultimately show ?thesis
    by blast
qed

theorem stable_sort_by_timestamp_witness:
  "int_key (sample_row ''c'' (JInt 50)) = Some 50
   \<and> int_key (sample_row ''a'' (JInt 10)) = Some 10
   \<and> int_key (sample_row ''b'' (JInt 30)) = Some 30
   \<and> (\<exists>ys. sort_new_rows [sample_row ''c'' (JInt 50), sample_row ''a'' (JInt 10),
               sample_row ''b'' (JInt 30)] = Inr ys
        \<and> mset ys = mset [sample_row ''c'' (JInt 50), sample_row ''a'' (JInt 10),
               sample_row ''b'' (JInt 30)]
        \<and> sorted (map key_value ys))"
proof -
  have ints: "\<forall>r \<in> set [sample_row ''c'' (JInt 50), sample_row ''a'' (JInt 10),
      sample_row ''b'' (JInt 30)]. int_key r \<noteq> None"
    by simp
  from stable_sort_by_timestamp [OF ints] obtain ys where
    "sort_new_rows [sample_row ''c'' (JInt 50), sample_row ''a'' (JInt 10),
               sample_row ''b'' (JInt 30)] = Inr ys"
    "mset ys = mset [sample_row ''c'' (JInt 50), sample_row ''a'' (JInt 10),
               sample_row ''b'' (JInt 30)]"
    "sorted (map key_value ys)"
    by (elim exE conjE)
  then show ?thesis
    by (intro conjI exI) simp_all
qed

text \<open>
  Two rows with the same timestamp, in both orders: the two batches are the same
  multiset, and each comes back in the order it went in.
\<close>

theorem ties_follow_input_order:
  "mset [sample_row ''a'' (JInt 1), sample_row ''b'' (JInt 1)]
     = mset [sample_row ''b'' (JInt 1), sample_row ''a'' (JInt 1)]
   \<and> sort_new_rows [sample_row ''a'' (JInt 1), sample_row ''b'' (JInt 1)]
       = Inr [sample_row ''a'' (JInt 1), sample_row ''b'' (JInt 1)]
   \<and> sort_new_rows [sample_row ''b'' (JInt 1), sample_row ''a'' (JInt 1)]
       = Inr [sample_row ''b'' (JInt 1), sample_row ''a'' (JInt 1)]
   \<and> [sample_row ''a'' (JInt 1), sample_row ''b'' (JInt 1)]
       \<noteq> [sample_row ''b'' (JInt 1), sample_row ''a'' (JInt 1)]"
proof (intro conjI)
  show "mset [sample_row ''a'' (JInt 1), sample_row ''b'' (JInt 1)]
     = mset [sample_row ''b'' (JInt 1), sample_row ''a'' (JInt 1)]"
    by (simp add: add_mset_commute)
  show "sort_new_rows [sample_row ''a'' (JInt 1), sample_row ''b'' (JInt 1)]
       = Inr [sample_row ''a'' (JInt 1), sample_row ''b'' (JInt 1)]"
    by (simp add: sort_pair [where m = 1 and n = 1] py_or_def)
  show "sort_new_rows [sample_row ''b'' (JInt 1), sample_row ''a'' (JInt 1)]
       = Inr [sample_row ''b'' (JInt 1), sample_row ''a'' (JInt 1)]"
    by (simp add: sort_pair [where m = 1 and n = 1] py_or_def)
  show "[sample_row ''a'' (JInt 1), sample_row ''b'' (JInt 1)]
       \<noteq> [sample_row ''b'' (JInt 1), sample_row ''a'' (JInt 1)]"
    by simp
qed

lemma map_sort_key: "map f (List.sort_key f zs) = sort (map f zs)"
  by (rule properties_for_sort [symmetric]) (simp_all add: sorted_sort_key)

lemma sort_key_same_keys:
  assumes "mset xs = mset ys"
  shows "map f (List.sort_key f xs) = map f (List.sort_key f ys)"
proof -
  have "mset (map f xs) = mset (map f ys)"
    by (simp only: mset_map assms)
  then have "mset (sort (map f ys)) = mset (map f xs)"
    by (simp only: mset_sort)
  then have "sort (map f xs) = sort (map f ys)"
    by (rule properties_for_sort) (rule sorted_sort)
  then show ?thesis
    by (simp only: map_sort_key)
qed

text \<open>
  Claim C7, amended. \<open>sort_new_rows\<close> is a function of the list it is given and touches
  nothing else. The sort key of a row is its timestamp, and 0 when the timestamp is
  missing or falsy (\<open>True\<close> counts as the integer 1). Take two batches with the same rows
  in different orders, every timestamp an integer or missing or falsy (or \<open>True\<close>). Both
  sorts succeed; the outputs are permutations of each other with the same sequence of
  sort keys; in each output the rows of equal sort key stand in the order they had in
  that sort's own input; and the two outputs are the same list when the sort keys of the
  batch are pairwise distinct.
\<close>

theorem order_of_permuted_batches:
  assumes "mset xs = mset ys"
    and "\<forall>r \<in> set xs. \<not> truthy (timestamp r) \<or> (\<exists>n. timestamp r = JInt n)
                         \<or> timestamp r = JBool True"
  shows "\<exists>xs' ys'. sort_new_rows xs = Inr xs' \<and> sort_new_rows ys = Inr ys'
     \<and> mset xs' = mset ys'
     \<and> map key_value xs' = map key_value ys'
     \<and> (\<forall>k. filter (\<lambda>r. key_value r = k) xs' = filter (\<lambda>r. key_value r = k) xs)
     \<and> (\<forall>k. filter (\<lambda>r. key_value r = k) ys' = filter (\<lambda>r. key_value r = k) ys)
     \<and> (\<forall>r \<in> set xs. \<not> truthy (timestamp r) \<longrightarrow> key_value r = 0)
     \<and> (\<forall>r \<in> set xs. \<forall>n. timestamp r = JInt n \<longrightarrow> key_value r = n)
     \<and> (\<forall>r \<in> set xs. timestamp r = JBool True \<longrightarrow> key_value r = 1)
     \<and> (distinct (map key_value xs) \<longrightarrow> xs' = ys')"
proof (intro exI conjI impI allI)
  have xs: "\<forall>r \<in> set xs. int_key r \<noteq> None"
    using assms(2) by (auto simp: int_key_def timestamp_key_def py_or_def)
  have "set ys = set xs"
    using assms(1) by (rule mset_eq_setD [symmetric])
  with xs have ys: "\<forall>r \<in> set ys. int_key r \<noteq> None"
    by (simp only:)
  show "sort_new_rows xs = Inr (List.sort_key key_value xs)"
    using xs by (rule sort_new_rows_numeric)
  show "sort_new_rows ys = Inr (List.sort_key key_value ys)"
    using ys by (rule sort_new_rows_numeric)
  show "mset (List.sort_key key_value xs) = mset (List.sort_key key_value ys)"
    by (simp only: mset_sort assms(1))
  show "map key_value (List.sort_key key_value xs) = map key_value (List.sort_key key_value ys)"
    using assms(1) by (rule sort_key_same_keys)
  show "filter (\<lambda>r. key_value r = k) (List.sort_key key_value xs)
      = filter (\<lambda>r. key_value r = k) xs" for k
    by (rule sort_key_stable)
  show "filter (\<lambda>r. key_value r = k) (List.sort_key key_value ys)
      = filter (\<lambda>r. key_value r = k) ys" for k
    by (rule sort_key_stable)
  show "\<forall>r \<in> set xs. \<not> truthy (timestamp r) \<longrightarrow> key_value r = 0"
    by (simp add: key_value_def falsy_key)
  show "\<forall>r \<in> set xs. \<forall>n. timestamp r = JInt n \<longrightarrow> key_value r = n"
    by (simp add: key_value_def int_key_def timestamp_key_def py_or_def)
  show "\<forall>r \<in> set xs. timestamp r = JBool True \<longrightarrow> key_value r = 1"
    by (simp add: key_value_def int_key_def timestamp_key_def py_or_def)
  show "List.sort_key key_value xs = List.sort_key key_value ys"
    if "distinct (map key_value xs)"
    using assms(1) that by (rule sort_key_of_permutation)
qed

theorem order_of_permuted_batches_witness:
  "mset [sample_row ''a'' (JInt 1), sample_row ''b'' (JInt 2)]
     = mset [sample_row ''b'' (JInt 2), sample_row ''a'' (JInt 1)]
   \<and> timestamp (sample_row ''a'' (JInt 1)) = JInt 1
   \<and> timestamp (sample_row ''b'' (JInt 2)) = JInt 2
   \<and> distinct (map key_value [sample_row ''a'' (JInt 1), sample_row ''b'' (JInt 2)])
   \<and> (\<exists>xs'. sort_new_rows [sample_row ''a'' (JInt 1), sample_row ''b'' (JInt 2)] = Inr xs'
        \<and> sort_new_rows [sample_row ''b'' (JInt 2), sample_row ''a'' (JInt 1)] = Inr xs')"
proof -
  have perm: "mset [sample_row ''a'' (JInt 1), sample_row ''b'' (JInt 2)]
     = mset [sample_row ''b'' (JInt 2), sample_row ''a'' (JInt 1)]"
    by (simp add: add_mset_commute)
  have ints: "\<forall>r \<in> set [sample_row ''a'' (JInt 1), sample_row ''b'' (JInt 2)].
      \<not> truthy (timestamp r) \<or> (\<exists>n. timestamp r = JInt n) \<or> timestamp r = JBool True"
    by simp
  have keys: "distinct (map key_value [sample_row ''a'' (JInt 1), sample_row ''b'' (JInt 2)])"
    by (simp add: key_value_def)
  from order_of_permuted_batches [OF perm ints] obtain xs' ys' where
    "sort_new_rows [sample_row ''a'' (JInt 1), sample_row ''b'' (JInt 2)] = Inr xs'"
    "sort_new_rows [sample_row ''b'' (JInt 2), sample_row ''a'' (JInt 1)] = Inr ys'"
    "distinct (map key_value [sample_row ''a'' (JInt 1), sample_row ''b'' (JInt 2)])
       \<longrightarrow> xs' = ys'"
    by (elim exE conjE)
  with keys have
    "sort_new_rows [sample_row ''a'' (JInt 1), sample_row ''b'' (JInt 2)] = Inr xs'"
    "sort_new_rows [sample_row ''b'' (JInt 2), sample_row ''a'' (JInt 1)] = Inr xs'"
    by simp_all
  with perm keys show ?thesis
    by (intro conjI exI) simp_all
qed

section \<open>One record and one notification for a transactionHash\<close>

lemma has_key_iff: "has_key tbl tx = (tx \<in> transactionHash ` set tbl)"
  by (auto simp: has_key_def)

lemma record_items_fresh:
  assumes "record_items ev items tbl new_rows = Inr (tbl', new_rows')"
    and "distinct (map transactionHash tbl)"
    and "distinct (map transactionHash new_rows)"
    and "set new_rows \<subseteq> set tbl"
    and "set tbl0 \<subseteq> set tbl"
    and "\<forall>r \<in> set new_rows. \<not> has_key tbl0 (transactionHash r)"
  shows "distinct (map transactionHash tbl')
     \<and> distinct (map transactionHash new_rows')
     \<and> set new_rows' \<subseteq> set tbl'
     \<and> set tbl0 \<subseteq> set tbl'
     \<and> (\<forall>r \<in> set new_rows'. \<not> has_key tbl0 (transactionHash r))"
  using assms
proof (induction items arbitrary: tbl new_rows)
  case Nil
  then show ?case by simp
next
  case (Cons item items)
  show ?case
  proof (cases "normalize_item item")
    case (Inl e)
    with Cons.prems(1) show ?thesis by simp
  next
    case (Inr r)
    show ?thesis
    proof (cases "truthy (transactionHash r)")
      case False
      with Inr Cons.prems have "record_items ev items tbl new_rows = Inr (tbl', new_rows')"
        by simp
      from Cons.IH [OF this Cons.prems(2-6)] show ?thesis .
    next
      case True
      show ?thesis
      proof (cases "has_key tbl (transactionHash r)")
        case present: True
        with True Inr Cons.prems(1)
        have "record_items ev items tbl new_rows = Inr (tbl', new_rows')"
          by (simp add: insert_do_nothing_def split: option.splits)
        from Cons.IH [OF this Cons.prems(2-6)] show ?thesis .
      next
        case absent: False
        with True Inr Cons.prems(1)
        have rest: "record_items ev items (tbl @ [r]) (new_rows @ [r]) = Inr (tbl', new_rows')"
          by (simp add: insert_do_nothing_def split: option.splits)
        from absent have fresh: "transactionHash r \<notin> transactionHash ` set tbl"
          by (simp add: has_key_iff)
        have 1: "distinct (map transactionHash (tbl @ [r]))"
          using Cons.prems(2) fresh by simp
        have 2: "distinct (map transactionHash (new_rows @ [r]))"
          using Cons.prems(3,4) fresh by auto
        have 3: "set (new_rows @ [r]) \<subseteq> set (tbl @ [r])"
          using Cons.prems(4) by auto
        have 4: "set tbl0 \<subseteq> set (tbl @ [r])"
          using Cons.prems(5) by auto
        have 5: "\<forall>x \<in> set (new_rows @ [r]). \<not> has_key tbl0 (transactionHash x)"
          using Cons.prems(5,6) fresh by (auto simp: has_key_iff)
        from Cons.IH [OF rest 1 2 3 4 5] show ?thesis .
      qed
    qed
  qed
qed

lemma sent_rows_failure [simp]: "sent_rows [(Failure e, d)] = []"
  by (simp add: sent_rows_def)

lemma try_block_ledger:
  assumes "ledger_ok w"
  shows "\<exists>sent. sent_rows (outbox (fst (try_block ev w))) = sent_rows (outbox w) @ sent
     \<and> (\<forall>r \<in> set sent. \<not> has_key (store w) (transactionHash r)
           \<and> r \<in> set (store (fst (try_block ev w))))
     \<and> ledger_ok (fst (try_block ev w))"
proof (cases "fetch_activity ev")
  case (Inl e)
  with assms show ?thesis
    by (intro exI [of _ "[]"]) (simp add: try_block_def)
next
  case items: (Inr items)
  show ?thesis
  proof (cases "record_items ev items (store w) []")
    case (Inl e)
    with items assms show ?thesis
      by (intro exI [of _ "[]"]) (simp add: try_block_def)
  next
    case (Inr p)
    then obtain tbl new_rows where rec: "record_items ev items (store w) [] = Inr (tbl, new_rows)"
      by (cases p) simp
    from assms have d: "distinct (map transactionHash (store w))"
      by (simp add: ledger_ok_def)
    from record_items_fresh [OF rec d, of "store w"]
    have tbl: "distinct (map transactionHash tbl)"
      and new: "distinct (map transactionHash new_rows)" "set new_rows \<subseteq> set tbl"
      and old: "set (store w) \<subseteq> set tbl"
      and fresh: "\<forall>r \<in> set new_rows. \<not> has_key (store w) (transactionHash r)"
      by simp_all
    show ?thesis
    proof (cases "sort_new_rows new_rows")
      case (Inl e)
      with items rec have "try_block ev w = (w\<lparr>store := tbl\<rparr>, Some e)"
        by (simp add: try_block_def)
      with assms tbl old show ?thesis
        by (intro exI [of _ "[]"]) (auto simp: ledger_ok_def)
    next
      case (Inr sorted_rows)
      then have perm: "mset sorted_rows = mset new_rows"
        by (rule sort_new_rows_mset)
      from deliver_in_order [of sorted_rows ev "outbox w"] obtain k where
        k: "sent_rows (fst (deliver ev sorted_rows (outbox w)))
              = sent_rows (outbox w) @ take k sorted_rows"
        by blast
      let ?sent = "take k sorted_rows"
      have tb: "fst (try_block ev w)
          = w\<lparr>store := tbl, outbox := fst (deliver ev sorted_rows (outbox w))\<rparr>"
        using items rec Inr by (simp add: try_block_def split: prod.splits)
      have sub: "set ?sent \<subseteq> set new_rows"
        using perm by (metis mset_eq_setD set_take_subset)
      have "distinct (map transactionHash sorted_rows)"
        using perm new(1) by (metis distinct_map mset_eq_imp_distinct_iff mset_eq_setD)
      then have dist: "distinct (map transactionHash ?sent)"
        by (simp add: distinct_take take_map [symmetric])
      have disj: "transactionHash ` set (sent_rows (outbox w)) \<inter> transactionHash ` set ?sent = {}"
      proof -
        have "transactionHash r \<noteq> transactionHash r'"
          if "r \<in> set (sent_rows (outbox w))" and "r' \<in> set ?sent" for r r'
        proof -
          from that(1) assms have "r \<in> set (store w)"
            by (auto simp: ledger_ok_def)
          moreover from that(2) sub fresh have "\<not> has_key (store w) (transactionHash r')"
            by blast
          ultimately show ?thesis
            by (auto simp: has_key_def)
        qed
        then show ?thesis
          by blast
      qed
      have "ledger_ok (fst (try_block ev w))"
        using assms tbl old new(2) sub dist disj
        unfolding tb ledger_ok_def by (auto simp: k)
      moreover have "\<forall>r \<in> set ?sent. \<not> has_key (store w) (transactionHash r)
           \<and> r \<in> set (store (fst (try_block ev w)))"
        using sub fresh new(2) unfolding tb by auto
      moreover have "sent_rows (outbox (fst (try_block ev w))) = sent_rows (outbox w) @ ?sent"
        unfolding tb by (simp add: k)
      ultimately show ?thesis
        by blast
    qed
  qed
qed

lemma cycle_after_try:
  "\<exists>ob. cycle ev w = Inr (sleep ((fst (try_block ev w))\<lparr>outbox := ob\<rparr>))
     \<and> sent_rows ob = sent_rows (outbox (fst (try_block ev w)))"
proof (cases "try_block ev w")
  case (Pair w1 r)
  then show ?thesis
    by (cases r)
       (auto simp: cycle_def except_block_def telegram_send_def split: option.splits
             intro: exI [of _ "outbox w1"])
qed

lemma cycle_ledger:
  assumes "ledger_ok w"
  shows "\<exists>w' sent. cycle ev w = Inr w'
     \<and> sent_rows (outbox w') = sent_rows (outbox w) @ sent
     \<and> (\<forall>r \<in> set sent. \<not> has_key (store w) (transactionHash r) \<and> r \<in> set (store w'))
     \<and> ledger_ok w'"
proof -
  from cycle_after_try [of ev w] obtain ob where
    ob: "cycle ev w = Inr (sleep ((fst (try_block ev w))\<lparr>outbox := ob\<rparr>))"
        "sent_rows ob = sent_rows (outbox (fst (try_block ev w)))"
    by blast
  from try_block_ledger [OF assms, of ev] obtain sent where
    sent: "sent_rows (outbox (fst (try_block ev w))) = sent_rows (outbox w) @ sent"
      "\<forall>r \<in> set sent. \<not> has_key (store w) (transactionHash r)
           \<and> r \<in> set (store (fst (try_block ev w)))"
      "ledger_ok (fst (try_block ev w))"
    by blast
  show ?thesis
  proof (intro exI conjI)
    show "cycle ev w = Inr (sleep ((fst (try_block ev w))\<lparr>outbox := ob\<rparr>))"
      by (rule ob(1))
    show "sent_rows (outbox (sleep ((fst (try_block ev w))\<lparr>outbox := ob\<rparr>)))
        = sent_rows (outbox w) @ sent"
      using ob(2) sent(1) by (simp add: sleep_def)
    show "\<forall>r \<in> set sent. \<not> has_key (store w) (transactionHash r)
        \<and> r \<in> set (store (sleep ((fst (try_block ev w))\<lparr>outbox := ob\<rparr>)))"
      using sent(2) by (simp add: sleep_def)
    show "ledger_ok (sleep ((fst (try_block ev w))\<lparr>outbox := ob\<rparr>))"
      using sent(3) ob(2) by (simp add: ledger_ok_def sleep_def)
  qed
qed

lemma run_ledger:
  assumes "ledger_ok w"
  shows "\<exists>w'. run evs n w = Inr w' \<and> ledger_ok w'"
proof (induction n)
  case 0
  with assms show ?case by simp
next
  case (Suc n)
  then obtain w1 where w1: "run evs n w = Inr w1" "ledger_ok w1"
    by blast
  from cycle_ledger [OF w1(2), of "evs n"] w1(1) show ?case
    by auto
qed


text \<open>
  Claim C6. From a world in which the store holds one row for a transactionHash and
  every row sent is a stored row, sent once (the empty world at start-up is one), a
  cycle sends only rows whose insert wrote them in that cycle: their transactionHash was
  not in the store before the cycle and they are in the store after it. The same holds
  after the cycle and after any number of iterations of the loop, so a transactionHash
  that comes back in a later poll is neither stored nor sent a second time.
\<close>

theorem notified_once_after_recording:
  assumes "ledger_ok w"
  shows "(\<exists>w' sent. cycle ev w = Inr w'
       \<and> sent_rows (outbox w') = sent_rows (outbox w) @ sent
       \<and> (\<forall>r \<in> set sent. \<not> has_key (store w) (transactionHash r) \<and> r \<in> set (store w'))
       \<and> ledger_ok w')
     \<and> (\<exists>w'. run evs n w = Inr w' \<and> ledger_ok w')"
  using cycle_ledger [OF assms] run_ledger [OF assms] by blast

theorem notified_once_after_recording_witness:
  "ledger_ok empty_world
   \<and> (\<exists>w'. run (\<lambda>i. flaky_env) 2 empty_world = Inr w' \<and> ledger_ok w')"
proof -
  have start: "ledger_ok empty_world"
    by (simp add: ledger_ok_def empty_world_def sent_rows_def)
  from notified_once_after_recording [OF start, of flaky_env "\<lambda>i. flaky_env" 2] start
  show ?thesis
    by blast
qed

section \<open>The stored payload reads back as the record\<close>

lemma hex_value_hex_digit: "d < 16 \<Longrightarrow> hex_value (hex_digit d) = Some d"
  by (auto simp: hex_value_def hex_digit_def)

lemma parse_chars_escape: "parse_chars (escape_char c @ s) acc = parse_chars s (acc @ [c])"
proof -
  consider "c = 34 \<or> c = 92 \<or> c = 8 \<or> c = 12 \<or> c = 10 \<or> c = 13 \<or> c = 9"
    | "c < 32" "c \<noteq> 8" "c \<noteq> 12" "c \<noteq> 10" "c \<noteq> 13" "c \<noteq> 9"
    | "32 \<le> c" "c \<noteq> 34" "c \<noteq> 92"
    by linarith
  then show ?thesis
  proof cases
    case 1
    then show ?thesis
      by (auto simp: escape_char_def unescape_def)
  next
    case 2
    have zero: "hex_value 48 = Some 0"
      by (simp add: hex_value_def)
    have high: "hex_value (hex_digit (c div 16)) = Some (c div 16)"
      using 2(1) by (intro hex_value_hex_digit) simp
    have low: "hex_value (hex_digit (c mod 16)) = Some (c mod 16)"
      by (intro hex_value_hex_digit) simp
    have "hex4 (48 # 48 # hex_digit (c div 16) # hex_digit (c mod 16) # s) = Some (c, s)"
      by (simp add: hex4_def zero high low)
    with 2 show ?thesis
      by (simp add: escape_char_def)
  next
    case 3
    then show ?thesis
      by (simp add: escape_char_def)
  qed
qed

lemma parse_chars_encoded:
  "parse_chars (concat (map escape_char s) @ 34 # rest) acc = Some (acc @ s, rest)"
  by (induction s arbitrary: acc) (simp_all add: parse_chars_escape del: parse_chars.simps(2), simp)


lemma str_nat_digits: "str_nat n \<noteq> [] \<and> (\<forall>c \<in> set (str_nat n). is_digit c)"
proof (induction n rule: str_nat.induct)
  case (1 n)
  show ?case
  proof (cases "n < 10")
    case True
    then show ?thesis
      by (subst (1 2) str_nat.simps) (simp add: is_digit_def)
  next
    case False
    with 1 show ?thesis
      by (subst (1 2) str_nat.simps) (auto simp: is_digit_def)
  qed
qed

lemma str_nat_head: "0 < n \<Longrightarrow> hd (str_nat n) \<noteq> 48"
proof (induction n rule: str_nat.induct)
  case (1 n)
  show ?case
  proof (cases "n < 10")
    case True
    with 1(2) show ?thesis
      by (subst str_nat.simps) simp
  next
    case False
    then have "0 < n div 10"
      by simp
    with 1(1) False have "hd (str_nat (n div 10)) \<noteq> 48"
      by simp
    with False show ?thesis
      using str_nat_digits [of "n div 10"]
      by (subst str_nat.simps) simp
  qed
qed

lemma digits_value_snoc: "digits_value (ds @ [d]) = 10 * digits_value ds + (d - 48)"
  by (simp add: digits_value_def)

lemma digits_value_str_nat: "digits_value (str_nat n) = n"
proof (induction n rule: str_nat.induct)
  case (1 n)
  show ?case
  proof (cases "n < 10")
    case True
    then show ?thesis
      by (subst str_nat.simps) (simp add: digits_value_def)
  next
    case False
    with 1 show ?thesis
      by (subst str_nat.simps) (simp add: digits_value_snoc)
  qed
qed

lemma str_nat_zero: "str_nat 0 = [48]"
  by (subst str_nat.simps) simp

lemma delimited_head: "delimited rest \<Longrightarrow> rest = [] \<or> (\<not> is_digit (hd rest) \<and> \<not> is_ws (hd rest))"
  by (auto simp: delimited_def is_digit_def is_ws_def split: list.splits)


lemma takeWhile_digits:
  assumes "delimited rest"
  shows "takeWhile is_digit (str_nat n @ rest) = str_nat n"
proof -
  from delimited_head [OF assms] have "takeWhile is_digit rest = []"
    by (cases rest) auto
  with str_nat_digits [of n] show ?thesis
    by (simp add: takeWhile_append2)
qed

lemma parse_digits:
  assumes "delimited rest"
  shows "int_digits (str_nat n @ rest) = str_nat n"
proof (cases "n = 0")
  case True
  then show ?thesis
    by (simp add: str_nat_zero int_digits_def)
next
  case False
  then have "hd (str_nat n) \<noteq> 48"
    by (simp add: str_nat_head)
  moreover obtain c t where "str_nat n = c # t"
    using str_nat_digits [of n] by (cases "str_nat n") auto
  ultimately show ?thesis
    using takeWhile_digits [OF assms, of n] by (simp add: int_digits_def)
qed

lemma str_nat_not_minus: "hd (str_nat n) \<noteq> 45"
  using str_nat_digits [of n] by (cases "str_nat n") (auto simp: is_digit_def)

lemma takeWhile_digit_append:
  assumes "delimited rest"
  shows "takeWhile is_digit (x @ rest) = takeWhile is_digit x"
proof -
  from delimited_head [OF assms] have "takeWhile is_digit rest = []"
    by (cases rest) auto
  then show ?thesis
    by (induction x) auto
qed

lemma int_digits_append:
  assumes "delimited rest"
  shows "int_digits (x @ rest) = int_digits x"
proof (cases x)
  case Nil
  with assms show ?thesis
    by (auto simp: int_digits_def delimited_def is_digit_def split: list.splits)
next
  case (Cons c s)
  with takeWhile_digit_append [OF assms, of "c # s"] show ?thesis
    by (simp add: int_digits_def)
qed

lemma frac_part_append:
  assumes "delimited rest"
  shows "frac_part (x @ rest) = frac_part x"
proof (cases x)
  case Nil
  with assms show ?thesis
    by (auto simp: frac_part_def delimited_def split: list.splits)
next
  case (Cons c s)
  with takeWhile_digit_append [OF assms, of s] show ?thesis
    by (simp add: frac_part_def)
qed

lemma exp_sign_append:
  assumes "delimited rest"
  shows "exp_sign (x @ rest) = exp_sign x"
  using assms by (cases x) (auto simp: exp_sign_def delimited_def split: list.splits)

lemma exp_sign_length: "length (exp_sign x) \<le> length x"
  by (cases x) (auto simp: exp_sign_def)

lemma exp_part_append:
  assumes "delimited rest"
  shows "exp_part (x @ rest) = exp_part x"
proof (cases x)
  case Nil
  with assms show ?thesis
    by (auto simp: exp_part_def delimited_def split: list.splits)
next
  case (Cons c s)
  have "drop (length (exp_sign s)) (s @ rest) = drop (length (exp_sign s)) s @ rest"
    using exp_sign_length [of s] by simp
  with Cons exp_sign_append [OF assms, of s]
    takeWhile_digit_append [OF assms, of "drop (length (exp_sign s)) s"]
  show ?thesis
    by (simp add: exp_part_def)
qed

lemma takeWhile_prefix: "takeWhile P ys @ drop (length (takeWhile P ys)) ys = ys"
  by (simp add: dropWhile_eq_drop [symmetric])

lemma int_digits_prefix: "int_digits x @ drop (length (int_digits x)) x = x"
  by (cases x) (auto simp: int_digits_def dropWhile_eq_drop [symmetric])

lemma frac_part_prefix: "frac_part x @ drop (length (frac_part x)) x = x"
  by (cases x) (auto simp: frac_part_def dropWhile_eq_drop [symmetric])

lemma exp_sign_prefix: "exp_sign x @ drop (length (exp_sign x)) x = x"
  by (cases x) (auto simp: exp_sign_def)

lemma exp_part_prefix: "exp_part x @ drop (length (exp_part x)) x = x"
proof (cases x)
  case Nil
  then show ?thesis by (simp add: exp_part_def)
next
  case (Cons c s)
  let ?sg = "exp_sign s"
  let ?ds = "takeWhile is_digit (drop (length ?sg) s)"
  have "?ds @ drop (length ?ds) (drop (length ?sg) s) = drop (length ?sg) s"
    by (rule takeWhile_prefix)
  then have "?sg @ ?ds @ drop (length ?sg + length ?ds) s = s"
    using exp_sign_prefix [of s] by (simp add: add.commute)
  with Cons show ?thesis
    by (simp add: exp_part_def)
qed

lemma prefix_length: "p @ drop (length p) x = x \<Longrightarrow> length p \<le> length x"
  by (metis length_append le_add1)

lemma drop_part_append:
  assumes "p @ drop (length p) x = x"
  shows "drop (length p) (x @ rest) = drop (length p) x @ rest"
  using prefix_length [OF assms] by simp

lemma scan_body_append:
  assumes "delimited rest"
  shows "int_digits (body @ rest) = int_digits body"
    and "frac_part (drop (length (int_digits body)) (body @ rest))
          = frac_part (drop (length (int_digits body)) body)"
    and "exp_part (drop (length (frac_part (drop (length (int_digits body)) body)))
            (drop (length (int_digits body)) (body @ rest)))
          = exp_part (drop (length (frac_part (drop (length (int_digits body)) body)))
              (drop (length (int_digits body)) body))"
    and "drop (length (exp_part (drop (length (frac_part (drop (length (int_digits body)) body)))
              (drop (length (int_digits body)) body))))
           (drop (length (frac_part (drop (length (int_digits body)) body)))
              (drop (length (int_digits body)) (body @ rest)))
          = drop (length (exp_part (drop (length (frac_part (drop (length (int_digits body)) body)))
              (drop (length (int_digits body)) body))))
           (drop (length (frac_part (drop (length (int_digits body)) body)))
              (drop (length (int_digits body)) body)) @ rest"
proof -
  let ?s1 = "drop (length (int_digits body)) body"
  let ?s2 = "drop (length (frac_part ?s1)) ?s1"
  have s1: "drop (length (int_digits body)) (body @ rest) = ?s1 @ rest"
    by (rule drop_part_append) (rule int_digits_prefix)
  have s2: "drop (length (frac_part ?s1)) (?s1 @ rest) = ?s2 @ rest"
    by (rule drop_part_append) (rule frac_part_prefix)
  have s3: "drop (length (exp_part ?s2)) (?s2 @ rest) = drop (length (exp_part ?s2)) ?s2 @ rest"
    by (rule drop_part_append) (rule exp_part_prefix)
  show "int_digits (body @ rest) = int_digits body"
    using assms by (rule int_digits_append)
  show "frac_part (drop (length (int_digits body)) (body @ rest)) = frac_part ?s1"
    unfolding s1 using assms by (rule frac_part_append)
  show "exp_part (drop (length (frac_part ?s1)) (drop (length (int_digits body)) (body @ rest)))
      = exp_part ?s2"
    unfolding s1 s2 using assms by (rule exp_part_append)
  show "drop (length (exp_part ?s2))
           (drop (length (frac_part ?s1)) (drop (length (int_digits body)) (body @ rest)))
      = drop (length (exp_part ?s2)) ?s2 @ rest"
    unfolding s1 s2 s3 by (rule refl)
qed

lemma scan_number_nonempty:
  "int_text (scan_number t) \<noteq> [] \<Longrightarrow> \<exists>c u. t = c # u"
  by (cases t) (auto simp: scan_number_def int_digits_def Let_def)

lemma scan_number_append:
  assumes "delimited rest" and "int_text (scan_number t) \<noteq> []"
  shows "scan_number (t @ rest)
       = (scan_number t)\<lparr>remainder := remainder (scan_number t) @ rest\<rparr>"
proof -
  obtain c u where t: "t = c # u"
    using scan_number_nonempty [OF assms(2)] by blast
  show ?thesis
  proof (cases "c = 45")
    case True
    then show ?thesis
      unfolding t scan_number_def Let_def
      by (simp add: scan_body_append [OF assms(1), of u] del: drop_append drop_drop)
  next
    case False
    then show ?thesis
      unfolding t scan_number_def Let_def
      using scan_body_append [OF assms(1), of "c # u"]
      by (simp del: drop_append drop_drop)
  qed
qed

lemma scan_number_text:
  assumes "int_text (scan_number t) \<noteq> []"
  shows "(if negative (scan_number t) then [45] else []) @ int_text (scan_number t)
     @ frac_text (scan_number t) @ exp_text (scan_number t) @ remainder (scan_number t) = t"
proof -
  obtain c u where t: "t = c # u"
    using scan_number_nonempty [OF assms] by blast
  let ?body = "if c = 45 then u else c # u"
  let ?s1 = "drop (length (int_digits ?body)) ?body"
  let ?s2 = "drop (length (frac_part ?s1)) ?s1"
  have "int_digits ?body @ frac_part ?s1 @ exp_part ?s2 @ drop (length (exp_part ?s2)) ?s2 = ?body"
    using int_digits_prefix [of ?body] frac_part_prefix [of ?s1] exp_part_prefix [of ?s2]
    by simp
  then show ?thesis
    unfolding t scan_number_def Let_def by (cases "c = 45") simp_all
qed

lemma parse_number_float:
  assumes "float_syntax t" and "delimited rest"
  shows "parse_number canon (t @ rest) = Some (JFloat (canon t), rest)"
proof -
  from assms(1) have parts: "int_text (scan_number t) \<noteq> []"
    "frac_text (scan_number t) \<noteq> [] \<or> exp_text (scan_number t) \<noteq> []"
    "remainder (scan_number t) = []"
    by (simp_all add: float_syntax_def)
  from scan_number_text [OF parts(1)] parts(3)
  have whole: "(if negative (scan_number t) then [45] else []) @ int_text (scan_number t)
     @ frac_text (scan_number t) @ exp_text (scan_number t) = t"
    by simp
  show ?thesis
    unfolding parse_number_def scan_number_append [OF assms(2) parts(1)] Let_def
    using parts whole by auto
qed

lemma float_syntax_head:
  assumes "float_syntax t"
  shows "\<exists>c u. t = c # u \<and> (c = 45 \<or> is_digit c)"
proof -
  from assms have parts: "int_text (scan_number t) \<noteq> []"
    by (simp add: float_syntax_def)
  then obtain c u where t: "t = c # u"
    using scan_number_nonempty by blast
  show ?thesis
  proof (cases "c = 45")
    case True
    with t show ?thesis by simp
  next
    case False
    with parts t have "int_digits (c # u) \<noteq> []"
      by (simp add: scan_number_def Let_def)
    then have "is_digit c"
      by (auto simp: int_digits_def is_digit_def split: if_splits)
    with t show ?thesis by simp
  qed
qed

lemma scan_str_int:
  "scan_number (str_int i)
     = \<lparr> negative = (i < 0), int_text = str_nat (nat \<bar>i\<bar>), frac_text = [], exp_text = [],
         remainder = [] \<rparr>"
proof -
  have digits: "int_digits (str_nat n) = str_nat n" for n
    using parse_digits [of "[]" n] by (simp add: delimited_def)
  show ?thesis
  proof (cases "i < 0")
    case True
    then have "nat \<bar>i\<bar> = nat (- i)"
      by simp
    with True show ?thesis
      by (simp add: scan_number_def str_int_def Let_def digits frac_part_def exp_part_def)
  next
    case False
    obtain c t where ct: "str_nat (nat i) = c # t" "c \<noteq> 45"
      using str_nat_digits [of "nat i"] str_nat_not_minus [of "nat i"]
      by (cases "str_nat (nat i)") auto
    then have neg: "(case str_nat (nat i) of [] \<Rightarrow> False | c # s1 \<Rightarrow> c = 45) = False"
      by simp
    from False have "nat \<bar>i\<bar> = nat i"
      by simp
    with False neg show ?thesis
      by (simp add: scan_number_def str_int_def Let_def digits frac_part_def exp_part_def)
  qed
qed

lemma parse_number_str_int:
  assumes "delimited rest"
  shows "parse_number canon (str_int i @ rest) = Some (JInt i, rest)"
proof -
  have "int_text (scan_number (str_int i)) \<noteq> []"
    using str_nat_digits [of "nat \<bar>i\<bar>"] by (simp only: scan_str_int number_text.simps) simp
  from scan_number_append [OF assms this] str_nat_digits [of "nat i"] str_nat_digits [of "nat (- i)"]
  show ?thesis
    by (simp add: parse_number_def scan_str_int digits_value_str_nat Let_def)
qed

lemma skip_ws_simps [simp]:
  "skip_ws [] = []"
  "skip_ws (32 # s) = skip_ws s"
  "\<not> is_ws c \<Longrightarrow> skip_ws (c # s) = c # s"
  by (simp_all add: skip_ws_def is_ws_def)

lemma str_int_head:
  "\<exists>c t. str_int i = c # t \<and> (c = 45 \<or> is_digit c)"
  using str_nat_digits [of "nat i"] str_nat_digits [of "nat (- i)"]
  by (cases "str_nat (nat i)") (auto simp: str_int_def)

lemma dumps_float_head:
  assumes "float_repr canon t"
  shows "\<exists>c u. dumps (JFloat t) = c # u \<and> (c = 45 \<or> is_digit c \<or> c = 78 \<or> c = 73)"
proof (cases "t = lit ''nan'' \<or> t = lit ''inf'' \<or> t = lit ''-inf''")
  case True
  then show ?thesis
    by (auto simp: lit_def)
next
  case False
  with assms have "float_syntax t"
    by (simp add: float_repr_def)
  from float_syntax_head [OF this] False show ?thesis
    by auto
qed

lemma dumps_head:
  assumes "well_formed canon j"
  shows "\<exists>c t. dumps j = c # t \<and> \<not> is_ws c \<and> c \<noteq> 93 \<and> c \<noteq> 125"
proof (cases j)
  case (JInt i)
  with str_int_head [of i] show ?thesis
    by (auto simp: is_ws_def is_digit_def)
next
  case (JFloat t)
  with assms dumps_float_head [of canon t] show ?thesis
    by (auto simp: is_ws_def is_digit_def simp del: dumps.simps)
qed (auto simp: lit_def is_ws_def encode_str_def)

lemma dumps_items_head:
  assumes "xs \<noteq> []" and "well_formed_items canon xs"
  shows "\<exists>c t. dumps_items xs = c # t \<and> \<not> is_ws c \<and> c \<noteq> 93"
proof (cases xs)
  case (Cons x ys)
  with assms(2) have "well_formed canon x"
    by simp
  from dumps_head [OF this] Cons show ?thesis
    by (cases ys) auto
qed (use assms in simp)

lemma dumps_members_head:
  "kvs \<noteq> [] \<Longrightarrow> \<exists>t. dumps_members kvs = 34 # t"
proof (cases kvs)
  case (Cons kv ys)
  then show ?thesis
    by (cases kv; cases ys) (auto simp: encode_str_def)
qed simp

lemma parse_value_Suc:
  "0 < n \<Longrightarrow> parse_value canon n s = parse_value canon (Suc (n - 1)) s"
  by simp

lemma expect_word:
  "expect w v (lit w @ rest) = Some (v, rest)"
  by (simp add: expect_def lit_def)

lemma parse_value_scalar:
  assumes "0 < n" and "delimited rest"
  shows "parse_value canon n (dumps JNull @ rest) = Some (JNull, rest)"
    and "parse_value canon n (dumps (JBool b) @ rest) = Some (JBool b, rest)"
    and "parse_value canon n (dumps (JInt i) @ rest) = Some (JInt i, rest)"
    and "parse_value canon n (dumps (JStr s) @ rest) = Some (JStr s, rest)"
    and "float_repr canon t \<Longrightarrow> parse_value canon n (dumps (JFloat t) @ rest) = Some (JFloat t, rest)"
proof -
  obtain m where n: "n = Suc m"
    using assms(1) by (cases n) auto
  have "lit ''null'' @ rest = 110 # tl (lit ''null'' @ rest)"
    by (simp add: lit_def)
  then show "parse_value canon n (dumps JNull @ rest) = Some (JNull, rest)"
    unfolding n using expect_word [of "''null''" JNull rest]
    by (simp del: append_Cons) (simp add: lit_def)
  show "parse_value canon n (dumps (JBool b) @ rest) = Some (JBool b, rest)"
    unfolding n
    using expect_word [of "''true''" "JBool True" rest] expect_word [of "''false''" "JBool False" rest]
    by (cases b) (simp_all add: lit_def)
  obtain c d where ct: "str_int i = c # d" "c = 45 \<or> is_digit c"
    using str_int_head by blast
  moreover from ct(1) parse_number_str_int [OF assms(2), of canon i]
  have "parse_number canon (c # d @ rest) = Some (JInt i, rest)"
    by simp
  ultimately show "parse_value canon n (dumps (JInt i) @ rest) = Some (JInt i, rest)"
    unfolding n by (auto simp: is_digit_def)
  show "parse_value canon n (dumps (JStr s) @ rest) = Some (JStr s, rest)"
    unfolding n by (simp add: encode_str_def parse_chars_encoded)
  show "parse_value canon n (dumps (JFloat t) @ rest) = Some (JFloat t, rest)"
    if wf: "float_repr canon t"
  proof -
    have no_number: "parse_number canon (c # u) = None" if "c = 78 \<or> c = 73" for c u
      using that by (auto simp: parse_number_def scan_number_def int_digits_def is_digit_def Let_def)
    have no_negative: "parse_number canon (45 # 73 # u) = None" for u
      by (simp add: parse_number_def scan_number_def int_digits_def is_digit_def Let_def)
    consider "t = lit ''nan''" | "t = lit ''inf''" | "t = lit ''-inf''"
      | "t \<noteq> lit ''nan''" "t \<noteq> lit ''inf''" "t \<noteq> lit ''-inf''" "float_syntax t" "canon t = t"
      using wf by (auto simp: float_repr_def)
    then show ?thesis
    proof cases
      case 1
      have "lit ''NaN'' @ rest = 78 # tl (lit ''NaN'' @ rest)"
        by (simp add: lit_def)
      with 1 show ?thesis
        unfolding n using expect_word [of "''NaN''" "JFloat (lit ''nan'')" rest]
        by (simp add: no_number del: append_Cons) (simp add: lit_def no_number)
    next
      case 2
      have "lit ''Infinity'' @ rest = 73 # tl (lit ''Infinity'' @ rest)"
        by (simp add: lit_def)
      with 2 show ?thesis
        unfolding n using expect_word [of "''Infinity''" "JFloat (lit ''inf'')" rest]
        by (simp add: lit_def no_number)
    next
      case 3
      have "lit ''-Infinity'' @ rest = 45 # 73 # tl (tl (lit ''-Infinity'' @ rest))"
        by (simp add: lit_def)
      with 3 show ?thesis
        unfolding n using expect_word [of "''-Infinity''" "JFloat (lit ''-inf'')" rest]
        by (simp add: lit_def no_negative)
    next
      case 4
      from float_syntax_head [OF 4(4)] obtain c u where cu: "t = c # u" "c = 45 \<or> is_digit c"
        by blast
      moreover from cu(1) 4(5) parse_number_float [OF 4(4) assms(2), of canon]
      have "parse_number canon (c # u @ rest) = Some (JFloat (c # u), rest)"
        by simp
      ultimately show ?thesis
        unfolding n using 4(1-3) by (auto simp: is_digit_def)
    qed
  qed
qed


lemma dict_set_new: "k \<notin> fst ` set acc \<Longrightarrow> dict_set acc k v = acc @ [(k, v)]"
  by (simp add: dict_set_def)

lemma parse_key:
  "parse_chars (tl (encode_str k) @ s) [] = Some (k, s)"
  using parse_chars_encoded [of k s "[]"] by (simp add: encode_str_def)

lemma encode_str_shape: "encode_str k = 34 # tl (encode_str k)"
  by (simp add: encode_str_def)

lemma parse_round_trip:
  "well_formed canon j \<Longrightarrow> length (dumps j) < n \<Longrightarrow> delimited rest
     \<Longrightarrow> parse_value canon n (dumps j @ rest) = Some (j, rest)"
  "xs \<noteq> [] \<Longrightarrow> well_formed_items canon xs \<Longrightarrow> Suc (length (dumps_items xs)) < n
     \<Longrightarrow> parse_items canon n (dumps_items xs @ 93 # rest) acc = Some (acc @ xs, rest)"
  "kvs \<noteq> [] \<Longrightarrow> distinct (map fst kvs) \<Longrightarrow> well_formed_members canon kvs
     \<Longrightarrow> fst ` set kacc \<inter> fst ` set kvs = {} \<Longrightarrow> Suc (length (dumps_members kvs)) < n
     \<Longrightarrow> parse_members canon n (dumps_members kvs @ 125 # rest) kacc = Some (kacc @ kvs, rest)"
proof (induction j and xs and kvs arbitrary: n rest and n rest acc and n rest kacc
    rule: dumps_dumps_items_dumps_members.induct)
  case 1
  then show ?case by (simp add: parse_value_scalar del: dumps.simps)
next
  case (2 b)
  then show ?case by (simp add: parse_value_scalar del: dumps.simps)
next
  case (3 i)
  then show ?case by (simp add: parse_value_scalar del: dumps.simps)
next
  case (4 t)
  then show ?case by (simp add: parse_value_scalar del: dumps.simps)
next
  case (5 s)
  then show ?case by (simp add: parse_value_scalar del: dumps.simps)
next
  case (6 xs)
  from 6(3) obtain m where n: "n = Suc m" and m: "Suc (length (dumps_items xs)) < m"
    by (cases n) auto
  show ?case
  proof (cases "xs = []")
    case True
    then show ?thesis
      unfolding n by (simp add: is_ws_def)
  next
    case False
    from 6(2) have "well_formed_items canon xs"
      by simp
    from dumps_items_head [OF False this] obtain c t where
      ct: "dumps_items xs = c # t" "\<not> is_ws c" "c \<noteq> 93"
      by blast
    from 6(1) [OF False _ m, of rest "[]"] 6(2)
    have "parse_items canon m (dumps_items xs @ 93 # rest) [] = Some (xs, rest)"
      by simp
    with ct show ?thesis
      unfolding n by simp
  qed
next
  case (7 kvs)
  from 7(3) obtain m where n: "n = Suc m" and m: "Suc (length (dumps_members kvs)) < m"
    by (cases n) auto
  show ?case
  proof (cases "kvs = []")
    case True
    then show ?thesis
      unfolding n by (simp add: is_ws_def)
  next
    case False
    from dumps_members_head [OF False] obtain t where t: "dumps_members kvs = 34 # t"
      by blast
    from 7(1) [OF False _ _ _ m, of "[]" rest] 7(2)
    have "parse_members canon m (dumps_members kvs @ 125 # rest) [] = Some (kvs, rest)"
      by simp
    with t show ?thesis
      unfolding n by (simp add: is_ws_def)
  qed
next
  case 8
  then show ?case by simp
next
  case (9 x)
  from 9(4) obtain m where n: "n = Suc m" and m: "length (dumps x) < m"
    by (cases n) auto
  have "delimited (93 # rest)"
    by (simp add: delimited_def)
  with 9(1) [OF _ m] 9(3) have "parse_value canon m (dumps x @ 93 # rest) = Some (x, rest')"
    if "rest' = 93 # rest" for rest'
    using that by simp
  then show ?case
    unfolding n by (simp add: is_ws_def)
next
  case (10 x y ys)
  from 10(5) obtain m where n: "n = Suc m"
    and m: "length (dumps x) < m" "Suc (length (dumps_items (y # ys))) < m"
    by (cases n) auto
  let ?tail = "44 # 32 # dumps_items (y # ys) @ 93 # rest"
  have "delimited ?tail"
    by (simp add: delimited_def)
  with 10(1) [OF _ m(1)] 10(4) have parsed: "parse_value canon m (dumps x @ ?tail) = Some (x, ?tail)"
    by simp
  from 10(4) have "well_formed_items canon (y # ys)"
    by simp
  from dumps_items_head [OF _ this] obtain c t where
    ct: "dumps_items (y # ys) = c # t" "\<not> is_ws c"
    by auto
  from 10(2) [OF _ _ m(2), of rest "acc @ [x]"] 10(4)
  have "parse_items canon m (dumps_items (y # ys) @ 93 # rest) (acc @ [x]) = Some (acc @ x # y # ys, rest)"
    by simp
  with parsed ct show ?case
    unfolding n by (simp add: is_ws_def)
next
  case 11
  then show ?case by simp
next
  case (12 k v)
  from 12(6) obtain m where n: "n = Suc m" and m: "length (dumps v) < m"
    by (cases n) auto
  have "delimited (125 # rest)"
    by (simp add: delimited_def)
  with 12(1) [OF _ m] 12(4) have parsed: "parse_value canon m (dumps v @ 125 # rest) = Some (v, 125 # rest)"
    by simp
  from 12(4) have "well_formed canon v"
    by simp
  from dumps_head [OF this] obtain c t where ct: "dumps v = c # t" "\<not> is_ws c"
    by blast
  have new: "dict_set kacc k v = kacc @ [(k, v)]"
    using 12(5) by (intro dict_set_new) auto
  have "parse_members canon (Suc m) (34 # (tl (encode_str k) @ 58 # 32 # dumps v @ 125 # rest)) kacc
      = Some (kacc @ [(k, v)], rest)"
    using parsed ct new by (simp add: parse_key is_ws_def del: dict_set_new)
  then show ?case
    unfolding n by (subst (asm) append_Cons [symmetric], subst (asm) encode_str_shape [symmetric]) simp
next
  case (13 k v kv kvs)
  from 13(7) obtain m where n: "n = Suc m"
    and m: "length (dumps v) < m" "Suc (length (dumps_members (kv # kvs))) < m"
    by (cases n) auto
  let ?tail = "44 # 32 # dumps_members (kv # kvs) @ 125 # rest"
  have "delimited ?tail"
    by (simp add: delimited_def)
  with 13(1) [OF _ m(1)] 13(5) have parsed: "parse_value canon m (dumps v @ ?tail) = Some (v, ?tail)"
    by simp
  from 13(5) have "well_formed canon v"
    by simp
  from dumps_head [OF this] obtain c t where ct: "dumps v = c # t" "\<not> is_ws c"
    by blast
  from dumps_members_head [of "kv # kvs"] obtain u where u: "dumps_members (kv # kvs) = 34 # u"
    by auto
  have new: "dict_set kacc k v = kacc @ [(k, v)]"
    using 13(6) by (intro dict_set_new) auto
  have disjoint: "fst ` set (kacc @ [(k, v)]) \<inter> fst ` set (kv # kvs) = {}"
    using 13(4,6) by auto
  from 13(2) [OF _ _ _ disjoint m(2), of rest] 13(4,5)
  have rest_members: "parse_members canon m (dumps_members (kv # kvs) @ 125 # rest) (kacc @ [(k, v)])
      = Some (kacc @ (k, v) # kv # kvs, rest)"
    by simp
  have "parse_members canon (Suc m)
        (34 # (tl (encode_str k) @ 58 # 32 # dumps v @ ?tail)) kacc
      = Some (kacc @ (k, v) # kv # kvs, rest)"
    using parsed ct new rest_members u by (simp add: parse_key is_ws_def)
  then show ?case
    unfolding n by (subst (asm) append_Cons [symmetric], subst (asm) encode_str_shape [symmetric]) simp
qed


lemma loads_dumps:
  assumes "well_formed canon j"
  shows "loads canon (dumps j) = Some j"
proof -
  from dumps_head [OF assms] obtain c t where ct: "dumps j = c # t" "\<not> is_ws c"
    by blast
  then have "skip_ws (dumps j) = dumps j"
    by simp
  moreover have "parse_value canon (Suc (length (dumps j))) (dumps j @ []) = Some (j, [])"
    using assms by (intro parse_round_trip(1)) (simp_all add: delimited_def)
  ultimately show ?thesis
    by (simp add: loads_def)
qed

lemma float_syntax_examples: "float_syntax (lit ''0.53'')" "float_syntax (lit ''1e-07'')"
  by (simp_all add: float_syntax_def scan_number_def int_digits_def frac_part_def exp_part_def
        exp_sign_def is_digit_def lit_def Let_def)

text \<open>
  Claim C9. For a record of the feed that is a well-formed dict (its floats are floats,
  each identified by the text that the interpreter's conversion \<open>canon\<close> gives back
  unchanged, and no dict in it has a key twice), \<open>normalize_item\<close> succeeds and the
  \<open>raw_json\<close> of its row, which is the text the store keeps, decodes to the record
  itself: every key and value of the original, ints, floats, strings and nested values
  alike, in the original order.
\<close>

theorem raw_json_round_trip:
  assumes "well_formed canon (JObj item)"
  shows "\<exists>r. normalize_item (JObj item) = Inr r \<and> loads canon (raw_json r) = Some (JObj item)"
  using loads_dumps [OF assms] by (simp del: dumps.simps)

theorem raw_json_round_trip_witness:
  "well_formed as_written priced_item
   \<and> (\<exists>r. normalize_item priced_item = Inr r
         \<and> loads as_written (raw_json r) = Some priced_item)"
proof -
  have wf: "well_formed as_written (JObj
     [(lit ''transactionHash'', JStr (lit ''0xa'')), (lit ''timestamp'', JInt 1700000000),
      (lit ''price'', JFloat (lit ''0.53'')), (lit ''size'', JFloat (lit ''1e-07''))])"
    by (simp add: float_repr_def float_syntax_examples as_written_def)
  from wf raw_json_round_trip [OF wf] show ?thesis
    unfolding priced_item_def by blast
qed

end
